theory Spec2Isabelle
  imports Complex_Main
begin

section \<open>Shared conventions\<close>

text \<open>
  The layout code of the repository is Python over floats. Python exceptions are values of
  \<open>py_error\<close>; a function that can raise returns \<open>py_error + 'a\<close> with \<open>Inl\<close> the
  exception. Python identifiers that start with an underscore lose it (\<open>_squarify\<close> is
  \<open>squarify\<close>), and a \<open>build\<close> function carries the name of its chart.
\<close>

datatype py_error = KeyError | IndexError | ValueError | ZeroDivisionError

section \<open>Funnel shape builder (src/charts/funnel/builder.py)\<close>

text \<open>
  The funnel computes its widths on a numpy array, where a division by zero raises nothing:
  it yields an infinity or a NaN. The stage values are therefore modelled as IEEE values with
  exact finite part: \<open>Fin r\<close> is the finite float \<open>r\<close>. Rounding, overflow and the sign of
  zero are not modelled (a zero is \<open>+0.0\<close>).
\<close>

datatype npfloat = Fin real | PInf | NInf | NaN

text \<open>numpy's elementwise \<open>a / b\<close> on float64.\<close>

fun np_div :: "npfloat \<Rightarrow> npfloat \<Rightarrow> npfloat" where
  "np_div NaN b = NaN"
| "np_div a NaN = NaN"
| "np_div (Fin a) (Fin b) =
     (if b = 0 then (if a = 0 then NaN else if 0 < a then PInf else NInf) else Fin (a / b))"
| "np_div (Fin a) PInf = Fin 0"
| "np_div (Fin a) NInf = Fin 0"
| "np_div PInf (Fin b) = (if 0 \<le> b then PInf else NInf)"
| "np_div NInf (Fin b) = (if 0 \<le> b then NInf else PInf)"
| "np_div PInf PInf = NaN"
| "np_div PInf NInf = NaN"
| "np_div NInf PInf = NaN"
| "np_div NInf NInf = NaN"

text \<open>\<open>np.maximum\<close> and \<open>np.minimum\<close>: both propagate NaN.\<close>

fun np_maximum :: "npfloat \<Rightarrow> npfloat \<Rightarrow> npfloat" where
  "np_maximum NaN b = NaN"
| "np_maximum a NaN = NaN"
| "np_maximum PInf b = PInf"
| "np_maximum a PInf = PInf"
| "np_maximum NInf b = b"
| "np_maximum a NInf = a"
| "np_maximum (Fin a) (Fin b) = Fin (max a b)"

fun np_minimum :: "npfloat \<Rightarrow> npfloat \<Rightarrow> npfloat" where
  "np_minimum NaN b = NaN"
| "np_minimum a NaN = NaN"
| "np_minimum NInf b = NInf"
| "np_minimum a NInf = NInf"
| "np_minimum PInf b = b"
| "np_minimum a PInf = a"
| "np_minimum (Fin a) (Fin b) = Fin (min a b)"

text \<open>\<open>np.clip(a, lo, hi)\<close> is \<open>np.minimum(np.maximum(a, lo), hi)\<close>.\<close>

definition np_clip :: "npfloat \<Rightarrow> npfloat \<Rightarrow> npfloat \<Rightarrow> npfloat" where
  "np_clip a lo hi = np_minimum (np_maximum a lo) hi"

text \<open>\<open>np.max\<close> of an array: a reduction by \<open>np.maximum\<close>; an empty array raises ValueError.\<close>

fun np_max :: "npfloat list \<Rightarrow> py_error + npfloat" where
  "np_max [] = Inl ValueError"
| "np_max (v # vs) = Inr (fold (\<lambda>x acc. np_maximum acc x) vs v)"

text \<open>
  \<open>validate_funnel\<close> (src/charts/core/validators.py): the stage list is not empty, and every
  stage has a label and a value that \<open>float\<close> accepts. A stage is modelled by its value after
  \<open>float\<close>, so only the emptiness check remains; no sign or finiteness is checked.
\<close>

definition validate_funnel :: "npfloat list \<Rightarrow> py_error + unit" where
  "validate_funnel stages = (if stages = [] then Inl ValueError else Inr ())"

text \<open>
  Lines 26 to 28 of \<open>build\<close>: \<open>base = vals[0] if normalize else np.max(vals)\<close>, then
  \<open>widths = np.clip(vals / base, 0.02, 1.0)\<close>.
\<close>

definition funnel_base :: "bool \<Rightarrow> npfloat list \<Rightarrow> py_error + npfloat" where
  "funnel_base normalize_opt vals =
     (if normalize_opt then (case vals of [] \<Rightarrow> Inl IndexError | v # _ \<Rightarrow> Inr v)
      else np_max vals)"

definition funnel_widths :: "bool \<Rightarrow> npfloat list \<Rightarrow> py_error + npfloat list" where
  "funnel_widths normalize_opt vals =
     (case funnel_base normalize_opt vals of
        Inl e \<Rightarrow> Inl e
      | Inr base \<Rightarrow> Inr (map (\<lambda>v. np_clip (np_div v base) (Fin 0.02) (Fin 1.0)) vals))"

definition funnel_build :: "bool \<Rightarrow> npfloat list \<Rightarrow> py_error + npfloat list" where
  "funnel_build normalize_opt stages =
     (case validate_funnel stages of
        Inl e \<Rightarrow> Inl e
      | Inr _ \<Rightarrow> funnel_widths normalize_opt stages)"

text \<open>The clamp of the specification, on exact numbers.\<close>

definition spec_clamp :: "real \<Rightarrow> real \<Rightarrow> real \<Rightarrow> real" where
  "spec_clamp x lo hi = (if x < lo then lo else if hi < x then hi else x)"

text \<open>The base of the specification: the first value, or the largest one.\<close>

definition spec_base :: "bool \<Rightarrow> real list \<Rightarrow> real" where
  "spec_base normalize_opt vs = (if normalize_opt then hd vs else Max (set vs))"

section \<open>Squarify solver (src/scripts/treemap/builder.py)\<close>

text \<open>
  The treemap code works on floats; the model works on exact reals, so a result "within
  floating tolerance" is an equation here. Where a denominator is zero numpy yields an
  infinity or a NaN and raises nothing, while a real quotient by zero is 0 in HOL: the
  theorems below are stated where no denominator is zero, or do not depend on the values.
  A rectangle is the tuple \<open>(x, y, w, h)\<close> of the source.
\<close>

type_synonym rect = "real \<times> real \<times> real \<times> real"

text \<open>
  \<open>worst_ratio (row, W)\<close>, lines 15 to 18. \<open>None\<close> is \<open>float('inf')\<close>, returned for the
  empty row; \<open>max (row)\<close> and \<open>min (row)\<close> are folds over the row.
\<close>

fun worst_ratio :: "real list \<Rightarrow> real \<Rightarrow> real option" where
  "worst_ratio [] W = None"
| "worst_ratio (r # rs) W =
     (let s = sum_list (r # rs); m = fold max rs r; n = fold min rs r
      in Some (max ((W ^ 2) * m / (s ^ 2)) ((s ^ 2) / (W ^ 2 * n))))"

text \<open>\<open>a <= b\<close> on floats that may be \<open>inf\<close>.\<close>

fun le_inf :: "real option \<Rightarrow> real option \<Rightarrow> bool" where
  "le_inf (Some a) (Some b) = (a \<le> b)"
| "le_inf (Some a) None = True"
| "le_inf None (Some b) = False"
| "le_inf None None = True"

text \<open>
  The two \<open>for r in row\<close> loops of \<open>layout\<close>, lines 24 to 27 and 32 to 35, with their
  running coordinate \<open>xx\<close> or \<open>yy\<close>; each returns the rectangles it appends to \<open>rects\<close>.
\<close>

fun layout_horizontal :: "real \<Rightarrow> real \<Rightarrow> real \<Rightarrow> real \<Rightarrow> real list \<Rightarrow> rect list" where
  "layout_horizontal padding y hh xx [] = []"
| "layout_horizontal padding y hh xx (r # row) =
     (let ww = r / hh
      in (xx + padding, y + padding, ww - 2 * padding, hh - 2 * padding)
           # layout_horizontal padding y hh (xx + ww) row)"

fun layout_vertical :: "real \<Rightarrow> real \<Rightarrow> real \<Rightarrow> real \<Rightarrow> real list \<Rightarrow> rect list" where
  "layout_vertical padding x ww yy [] = []"
| "layout_vertical padding x ww yy (r # row) =
     (let hh = r / ww
      in (x + padding, yy + padding, ww - 2 * padding, hh - 2 * padding)
           # layout_vertical padding x ww (yy + hh) row)"

text \<open>
  \<open>layout (row, x, y, W, H, horizontal)\<close>, lines 19 to 36: the rectangles appended to
  \<open>rects\<close>, and the returned remaining rectangle.
\<close>

definition layout :: "real \<Rightarrow> real list \<Rightarrow> real \<Rightarrow> real \<Rightarrow> real \<Rightarrow> real \<Rightarrow> bool \<Rightarrow> rect list \<times> rect" where
  "layout padding row x y W H horizontal =
     (let s = sum_list row
      in if horizontal
         then (let hh = s / W in (layout_horizontal padding y hh x row, (x, y + hh, W, H - hh)))
         else (let ww = s / H in (layout_vertical padding x ww y row, (x + ww, y, W - ww, H))))"

text \<open>
  The \<open>while i < len (vals)\<close> loop of lines 40 to 46 and the flush of lines 47 and 48. The
  first list is \<open>vals[i:]\<close>; \<open>rects\<close> is the list built so far. A rejected value stays in
  the list: the next round finds the row empty and takes it.
\<close>

function squarify_loop ::
  "real \<Rightarrow> real list \<Rightarrow> real list \<Rightarrow> real \<Rightarrow> real \<Rightarrow> real \<Rightarrow> real \<Rightarrow> bool \<Rightarrow> rect list \<Rightarrow> rect list" where
  "squarify_loop padding [] row cur_x cur_y cur_w cur_h horizontal rects =
     (if row \<noteq> [] then rects @ fst (layout padding row cur_x cur_y cur_w cur_h horizontal)
      else rects)"
| "squarify_loop padding (v # vals) row cur_x cur_y cur_w cur_h horizontal rects =
     (if row = [] \<or> le_inf (worst_ratio (row @ [v]) (min cur_w cur_h))
                            (worst_ratio row (min cur_w cur_h))
      then squarify_loop padding vals (row @ [v]) cur_x cur_y cur_w cur_h horizontal rects
      else (case layout padding row cur_x cur_y cur_w cur_h horizontal of
              (new, (x', y', w', h')) \<Rightarrow>
                squarify_loop padding (v # vals) [] x' y' w' h' (\<not> horizontal) (rects @ new)))"
  by pat_completeness auto
termination
  by (relation "measure (\<lambda>(padding, vals, row, cur_x, cur_y, cur_w, cur_h, horizontal, rects).
        2 * length vals + (if row = [] then 0 else 1))") auto

text \<open>\<open>_squarify\<close>, lines 8 to 49: the values are first scaled to the container's area.\<close>

definition squarify :: "real list \<Rightarrow> real \<Rightarrow> real \<Rightarrow> real \<Rightarrow> real \<Rightarrow> real \<Rightarrow> rect list" where
  "squarify values x y w h padding =
     (let vals = map (\<lambda>v. v / sum_list values * (w * h)) values
      in squarify_loop padding vals [] x y w h True [])"

text \<open>
  The strips the loop lays out, in order: for each call of \<open>layout\<close> the row, the remaining
  rectangle it is given, and the \<open>horizontal\<close> flag. It is the loop above with the calls
  recorded instead of the rectangles.
\<close>

function squarify_strips ::
  "real list \<Rightarrow> real list \<Rightarrow> real \<Rightarrow> real \<Rightarrow> real \<Rightarrow> real \<Rightarrow> bool \<Rightarrow> (real list \<times> rect \<times> bool) list" where
  "squarify_strips [] row cur_x cur_y cur_w cur_h horizontal =
     (if row \<noteq> [] then [(row, (cur_x, cur_y, cur_w, cur_h), horizontal)] else [])"
| "squarify_strips (v # vals) row cur_x cur_y cur_w cur_h horizontal =
     (if row = [] \<or> le_inf (worst_ratio (row @ [v]) (min cur_w cur_h))
                            (worst_ratio row (min cur_w cur_h))
      then squarify_strips vals (row @ [v]) cur_x cur_y cur_w cur_h horizontal
      else (case layout 0 row cur_x cur_y cur_w cur_h horizontal of
              (new, (x', y', w', h')) \<Rightarrow>
                (row, (cur_x, cur_y, cur_w, cur_h), horizontal)
                  # squarify_strips (v # vals) [] x' y' w' h' (\<not> horizontal)))"
  by pat_completeness auto
termination
  by (relation "measure (\<lambda>(vals, row, cur_x, cur_y, cur_w, cur_h, horizontal).
        2 * length vals + (if row = [] then 0 else 1))") auto

text \<open>Geometry of the result: area, overlap of interiors, containment.\<close>

fun area :: "rect \<Rightarrow> real" where
  "area (x, y, w, h) = w * h"

fun overlap :: "rect \<Rightarrow> rect \<Rightarrow> bool" where
  "overlap (x1, y1, w1, h1) (x2, y2, w2, h2) =
     (x1 < x2 + w2 \<and> x2 < x1 + w1 \<and> y1 < y2 + h2 \<and> y2 < y1 + h1)"

fun inside :: "rect \<Rightarrow> rect \<Rightarrow> bool" where
  "inside (x1, y1, w1, h1) (x2, y2, w2, h2) =
     (x2 \<le> x1 \<and> x1 + w1 \<le> x2 + w2 \<and> y2 \<le> y1 \<and> y1 + h1 \<le> y2 + h2)"

text \<open>
  \<open>validate_treemap\<close> (src/charts/core/validators.py), on the item values after \<open>float\<close>:
  the item list is not empty and every value is greater than 0, else ValueError.
\<close>

definition validate_treemap :: "real list \<Rightarrow> py_error + unit" where
  "validate_treemap items =
     (if items = [] then Inl ValueError
      else if list_all (\<lambda>v. 0 < v) items then Inr () else Inl ValueError)"

text \<open>No two rectangles of a list overlap.\<close>

definition nonoverlapping :: "rect list \<Rightarrow> bool" where
  "nonoverlapping rs = sorted_wrt (\<lambda>a b. \<not> overlap a b) rs"

text \<open>The strips of a call of \<open>_squarify\<close>: those of its loop on the scaled values.\<close>

definition squarify_rows ::
  "real list \<Rightarrow> real \<Rightarrow> real \<Rightarrow> real \<Rightarrow> real \<Rightarrow> (real list \<times> rect \<times> bool) list" where
  "squarify_rows values x y w h =
     squarify_strips (map (\<lambda>v. v / sum_list values * (w * h)) values) [] x y w h True"

text \<open>The rectangles \<open>layout\<close> appends for one recorded strip.\<close>

fun strip_rects :: "real \<Rightarrow> real list \<times> rect \<times> bool \<Rightarrow> rect list" where
  "strip_rects padding (row, (x, y, W, H), horizontal) = fst (layout padding row x y W H horizontal)"

fun strip_horizontal :: "real list \<times> rect \<times> bool \<Rightarrow> bool" where
  "strip_horizontal (row, cur, horizontal) = horizontal"

text \<open>
  The worst aspect ratio in the words of the specification: \<open>S\<close> the sum of the row,
  \<open>max_v\<close> and \<open>min_v\<close> its extreme values, \<open>T\<close> the shorter side.
\<close>

definition spec_worst_ratio :: "real \<Rightarrow> real \<Rightarrow> real \<Rightarrow> real \<Rightarrow> real" where
  "spec_worst_ratio S max_v min_v T = max ((S ^ 2 * max_v) / T ^ 2) (T ^ 2 / (S ^ 2 * min_v))"

section \<open>Sankey flow layout (src/scripts/sankey/builder.py)\<close>

text \<open>
  Nodes and links are the dicts of the payload, with the keys the layout reads; values are
  Python floats, modelled as exact reals, and ids are any hashable key. The horizontal
  positions (\<open>x_positions\<close>, the Bezier control points) and the colours play no part in the
  vertical layout and are left out.
\<close>

record 'k sankey_node =
  sn_id :: 'k
  sn_col :: int

record 'k sankey_link =
  lk_source :: 'k
  lk_target :: 'k
  lk_value :: real

text \<open>
  Lines 59 to 63. The dicts \<open>in_sums\<close> and \<open>out_sums\<close> have the node ids as keys from their
  creation on, so they are functions on the ids together with the list of ids;
  \<open>out_sums[e["source"]] += ...\<close> raises KeyError on any other key.
\<close>

fun sum_flows ::
  "'k list \<Rightarrow> 'k sankey_link list \<Rightarrow> ('k \<Rightarrow> real) \<Rightarrow> ('k \<Rightarrow> real)
     \<Rightarrow> py_error + (('k \<Rightarrow> real) \<times> ('k \<Rightarrow> real))" where
  "sum_flows ids [] in_sums out_sums = Inr (in_sums, out_sums)"
| "sum_flows ids (e # links) in_sums out_sums =
     (if lk_source e \<notin> set ids then Inl KeyError
      else if lk_target e \<notin> set ids then Inl KeyError
      else sum_flows ids links
             (in_sums(lk_target e := in_sums (lk_target e) + lk_value e))
             (out_sums(lk_source e := out_sums (lk_source e) + lk_value e)))"

text \<open>Line 65: \<open>max (in_sums[id], out_sums[id], 0.0)\<close>.\<close>

definition node_size_units :: "('k \<Rightarrow> real) \<Rightarrow> ('k \<Rightarrow> real) \<Rightarrow> 'k \<Rightarrow> real" where
  "node_size_units in_sums out_sums k = max (max (in_sums k) (out_sums k)) 0"

text \<open>Lines 51 to 54: the nodes of a column in input order, and the sorted column keys.\<close>

definition by_col :: "'k sankey_node list \<Rightarrow> int \<Rightarrow> 'k sankey_node list" where
  "by_col nodes c = filter (\<lambda>n. sn_col n = c) nodes"

definition cols_sorted :: "'k sankey_node list \<Rightarrow> int list" where
  "cols_sorted nodes = sort (remdups (map sn_col nodes))"

text \<open>Lines 66 and 67.\<close>

definition max_in_col :: "'k sankey_node list \<Rightarrow> ('k \<Rightarrow> real) \<Rightarrow> int \<Rightarrow> real" where
  "max_in_col nodes units c = sum_list (map (\<lambda>n. units (sn_id n)) (by_col nodes c))"

definition global_max :: "'k sankey_node list \<Rightarrow> ('k \<Rightarrow> real) \<Rightarrow> real" where
  "global_max nodes units =
     (case map (max_in_col nodes units) (cols_sorted nodes) of
        [] \<Rightarrow> 1
      | m # ms \<Rightarrow> fold max ms m)"

text \<open>
  Lines 69 and 70: \<open>unit_to_px = usable_h_px / global_max\<close>, a division of Python floats,
  which raises ZeroDivisionError.
\<close>

definition unit_to_px :: "real \<Rightarrow> real \<Rightarrow> py_error + real" where
  "unit_to_px usable_h_px gmax = (if gmax = 0 then Inl ZeroDivisionError else Inr (usable_h_px / gmax))"

text \<open>\<open>_stack_positions\<close>, lines 13 to 19, with its running \<open>y\<close>.\<close>

fun stack_from :: "real \<Rightarrow> real list \<Rightarrow> real \<Rightarrow> real list" where
  "stack_from y [] padding_px = []"
| "stack_from y (h # sizes) padding_px = y # stack_from (y + (h + padding_px)) sizes padding_px"

definition stack_positions :: "real list \<Rightarrow> real \<Rightarrow> real list" where
  "stack_positions sizes padding_px = stack_from 0 sizes padding_px"

text \<open>
  Lines 92 to 104, for one column: the entries \<open>(id, (y0, h))\<close> written into \<open>node_layout\<close>,
  in order.
\<close>

definition column_layout ::
  "'k sankey_node list \<Rightarrow> ('k \<Rightarrow> real) \<Rightarrow> real \<Rightarrow> real \<Rightarrow> real \<Rightarrow> ('k \<times> real \<times> real) list" where
  "column_layout nodes_c units u node_pad usable_h_px =
     (let heights_px = map (\<lambda>n. units (sn_id n) * u) nodes_c;
          ys = stack_positions heights_px (node_pad * 1.5);
          y_offset = (if heights_px \<noteq> []
                      then (usable_h_px - (last ys + last heights_px)) / 2
                      else usable_h_px / 2)
      in zip (map sn_id nodes_c) (zip (map (\<lambda>y. y + y_offset) ys) heights_px))"

text \<open>The dict \<open>node_layout\<close> after the loop over the sorted columns: a later entry wins.\<close>

definition node_layout ::
  "'k sankey_node list \<Rightarrow> ('k \<Rightarrow> real) \<Rightarrow> real \<Rightarrow> real \<Rightarrow> real \<Rightarrow> ('k \<rightharpoonup> real \<times> real)" where
  "node_layout nodes units u node_pad usable_h_px =
     fold (\<lambda>c lay. fold (\<lambda>(k, yh) lay'. lay'(k \<mapsto> yh))
                      (column_layout (by_col nodes c) units u node_pad usable_h_px) lay)
          (cols_sorted nodes) Map.empty"

text \<open>
  A ribbon: the link's ends, the heights \<open>y0\<close> and \<open>y1\<close> at which it leaves the source and
  enters the target, and its thickness \<open>h_px\<close> (the same at both ends).
\<close>

record 'k ribbon =
  rb_source :: 'k
  rb_target :: 'k
  rb_y0 :: real
  rb_y1 :: real
  rb_h :: real

text \<open>
  Lines 111 to 126: the loop over the links, with the running offsets \<open>out_offset\<close> and
  \<open>in_offset\<close> (zero on every id at first). \<open>node_layout[...]\<close> raises KeyError on an id
  without entry.
\<close>

fun link_ribbons ::
  "('k \<rightharpoonup> real \<times> real) \<Rightarrow> real \<Rightarrow> 'k sankey_link list \<Rightarrow> ('k \<Rightarrow> real) \<Rightarrow> ('k \<Rightarrow> real)
     \<Rightarrow> py_error + 'k ribbon list" where
  "link_ribbons lay u [] out_offset in_offset = Inr []"
| "link_ribbons lay u (e # links) out_offset in_offset =
     (case lay (lk_source e) of
        None \<Rightarrow> Inl KeyError
      | Some (s_y0, s_h) \<Rightarrow>
          (case lay (lk_target e) of
             None \<Rightarrow> Inl KeyError
           | Some (t_y0, t_h) \<Rightarrow>
               (let h_px = lk_value e * u;
                    y0 = s_y0 + out_offset (lk_source e);
                    y1 = t_y0 + in_offset (lk_target e)
                in case link_ribbons lay u links
                          (out_offset(lk_source e := out_offset (lk_source e) + h_px))
                          (in_offset(lk_target e := in_offset (lk_target e) + h_px)) of
                     Inl err \<Rightarrow> Inl err
                   | Inr rs \<Rightarrow>
                       Inr (\<lparr>rb_source = lk_source e, rb_target = lk_target e,
                             rb_y0 = y0, rb_y1 = y1, rb_h = h_px\<rparr> # rs))))"

text \<open>
  What \<open>build\<close> computes before it draws: the flow sums, the scale, the node boxes and the
  ribbons.
\<close>

record 'k sankey_geometry =
  sg_in_sums :: "'k \<Rightarrow> real"
  sg_out_sums :: "'k \<Rightarrow> real"
  sg_unit_to_px :: real
  sg_node_layout :: "'k \<rightharpoonup> real \<times> real"
  sg_ribbons :: "'k ribbon list"

text \<open>
  \<open>validate_sankey\<close> (src/charts/core/validators.py): nodes and links are not empty, every
  link joins two known nodes of adjacent columns, and a column is an integer not below 0.
\<close>

definition validate_sankey :: "'k sankey_node list \<Rightarrow> 'k sankey_link list \<Rightarrow> py_error + unit" where
  "validate_sankey nodes links =
     (if nodes = [] \<or> links = [] then Inl ValueError
      else if list_ex (\<lambda>n. sn_col n < 0) nodes then Inl ValueError
      else if list_ex (\<lambda>e. map_of (map (\<lambda>n. (sn_id n, sn_col n)) (rev nodes)) (lk_source e) = None
                          \<or> map_of (map (\<lambda>n. (sn_id n, sn_col n)) (rev nodes)) (lk_target e) = None) links
      then Inl ValueError
      else if list_ex (\<lambda>e. case (map_of (map (\<lambda>n. (sn_id n, sn_col n)) (rev nodes)) (lk_source e),
                                  map_of (map (\<lambda>n. (sn_id n, sn_col n)) (rev nodes)) (lk_target e)) of
                             (Some a, Some b) \<Rightarrow> \<bar>a - b\<bar> \<noteq> 1
                           | _ \<Rightarrow> True) links
      then Inl ValueError
      else Inr ())"

text \<open>
  \<open>build\<close>, lines 35 to 126, without the drawing: \<open>height\<close> and \<open>node_pad\<close> are the options
  \<open>height\<close> and \<open>node_padding\<close>.
\<close>

definition sankey_build ::
  "'k sankey_node list \<Rightarrow> 'k sankey_link list \<Rightarrow> real \<Rightarrow> real \<Rightarrow> py_error + 'k sankey_geometry" where
  "sankey_build nodes links height node_pad =
     (case validate_sankey nodes links of
        Inl err \<Rightarrow> Inl err
      | Inr _ \<Rightarrow>
     (case sum_flows (map sn_id nodes) links (\<lambda>k. 0) (\<lambda>k. 0) of
        Inl err \<Rightarrow> Inl err
      | Inr (in_sums, out_sums) \<Rightarrow>
          (let units = node_size_units in_sums out_sums;
               usable_h_px = height * 0.85
           in case unit_to_px usable_h_px (global_max nodes units) of
                Inl err \<Rightarrow> Inl err
              | Inr u \<Rightarrow>
                  (let lay = node_layout nodes units u node_pad usable_h_px
                   in case link_ribbons lay u links (\<lambda>k. 0) (\<lambda>k. 0) of
                        Inl err \<Rightarrow> Inl err
                      | Inr rs \<Rightarrow>
                          Inr \<lparr>sg_in_sums = in_sums, sg_out_sums = out_sums, sg_unit_to_px = u,
                               sg_node_layout = lay, sg_ribbons = rs\<rparr>))))"

section \<open>Graph lane assignment (src/scripts/flow/builder.py)\<close>

text \<open>
  \<open>_auto_lanes\<close> reads of a node only its \<open>id\<close> and of an edge only \<open>from\<close> and \<open>to\<close>: a node
  is its id (any hashable key, strings or numbers in a JSON payload), an edge the pair
  \<open>(from, to)\<close>. \<open>lane_override\<close> is a dict, given as its list of items; \<open>lane\<close> is the dict
  the function builds and returns, a map from ids to lanes.
\<close>

type_synonym 'k edge = "'k \<times> 'k"

text \<open>
  \<open>preds[k]\<close> after the loop of lines 12 and 13: the sources of the edges into \<open>k\<close>, in the
  order of the edges.
\<close>

definition preds :: "'k edge list \<Rightarrow> 'k \<Rightarrow> 'k list" where
  "preds edges k = map fst (filter (\<lambda>e. snd e = k) edges)"

text \<open>\<open>[lane[p] for p in ps]\<close>: \<open>None\<close> when some \<open>lane[p]\<close> raises KeyError.\<close>

fun lanes_of :: "('k \<rightharpoonup> int) \<Rightarrow> 'k list \<Rightarrow> int list option" where
  "lanes_of lane [] = Some []"
| "lanes_of lane (p # ps) =
     (case lane p of
        None \<Rightarrow> None
      | Some l \<Rightarrow> (case lanes_of lane ps of None \<Rightarrow> None | Some ls \<Rightarrow> Some (l # ls)))"

text \<open>
  One pass of the \<open>for n in nodes\<close> loop, lines 17 to 22, over the nodes still to visit, with
  the flag \<open>changed\<close>.
\<close>

fun lane_pass ::
  "('k \<times> int) list \<Rightarrow> 'k edge list \<Rightarrow> 'k list \<Rightarrow> ('k \<rightharpoonup> int) \<Rightarrow> bool
     \<Rightarrow> py_error + (('k \<rightharpoonup> int) \<times> bool)" where
  "lane_pass lane_override edges [] lane changed = Inr (lane, changed)"
| "lane_pass lane_override edges (n # nodes) lane changed =
     (if map_of lane_override n \<noteq> None then lane_pass lane_override edges nodes lane changed
      else if preds edges n = [] then lane_pass lane_override edges nodes lane changed
      else (case lanes_of lane (preds edges n) of
              None \<Rightarrow> Inl KeyError
            | Some [] \<Rightarrow> Inl ValueError
            | Some (l # ls) \<Rightarrow>
                (let m = fold max ls l
                 in case lane n of
                      None \<Rightarrow> Inl KeyError
                    | Some lane_n \<Rightarrow>
                        if lane_n \<le> m
                        then lane_pass lane_override edges nodes (lane(n \<mapsto> m + 1)) True
                        else lane_pass lane_override edges nodes lane changed)))"

text \<open>
  The \<open>for _ in range (12)\<close> loop, lines 15 to 23, with the number of passes left: it stops
  at the first pass that changes nothing.
\<close>

fun lane_passes ::
  "nat \<Rightarrow> ('k \<times> int) list \<Rightarrow> 'k edge list \<Rightarrow> 'k list \<Rightarrow> ('k \<rightharpoonup> int)
     \<Rightarrow> py_error + ('k \<rightharpoonup> int)" where
  "lane_passes 0 lane_override edges nodes lane = Inr lane"
| "lane_passes (Suc k) lane_override edges nodes lane =
     (case lane_pass lane_override edges nodes lane False of
        Inl e \<Rightarrow> Inl e
      | Inr (lane', changed) \<Rightarrow>
          if \<not> changed then Inr lane' else lane_passes k lane_override edges nodes lane')"

text \<open>
  Line 14: every node starts at its override, or at 0. (The source has two branches, for an
  empty and a non-empty \<open>lane_override\<close>; on an empty one they agree.)
\<close>

definition initial_lanes :: "'k list \<Rightarrow> ('k \<times> int) list \<Rightarrow> ('k \<rightharpoonup> int)" where
  "initial_lanes nodes lane_override =
     map_of (map (\<lambda>n. (n, case map_of lane_override n of None \<Rightarrow> 0 | Some l \<Rightarrow> l)) nodes)"

text \<open>
  \<open>_auto_lanes\<close>, lines 8 to 24. \<open>preds[e["to"]].append (...)\<close> raises KeyError for an edge
  into an id that no node has.
\<close>

definition auto_lanes ::
  "'k list \<Rightarrow> 'k edge list \<Rightarrow> ('k \<times> int) list \<Rightarrow> py_error + ('k \<rightharpoonup> int)" where
  "auto_lanes nodes edges lane_override =
     (if list_ex (\<lambda>e. snd e \<notin> set nodes) edges then Inl KeyError
      else lane_passes 12 lane_override edges nodes (initial_lanes nodes lane_override))"

text \<open>The edge \<open>(u, v)\<close> lies on a cycle: \<open>u\<close> can be reached from \<open>v\<close> along the edges.\<close>

definition on_cycle :: "'k edge list \<Rightarrow> 'k \<Rightarrow> 'k \<Rightarrow> bool" where
  "on_cycle edges u v = ((v, u) \<in> (set edges)\<^sup>*)"

text \<open>
  On the lanes \<open>lane\<close>, every edge into a node of \<open>B\<close> that has no override goes up: both
  ends have a lane, and the target's is the greater.
\<close>

definition settled ::
  "('k \<times> int) list \<Rightarrow> 'k edge list \<Rightarrow> ('k \<rightharpoonup> int) \<Rightarrow> 'k set \<Rightarrow> bool" where
  "settled lane_override edges lane B =
     (\<forall>(u, v)\<in>set edges. v \<in> B \<longrightarrow> map_of lane_override v = None \<longrightarrow>
        (\<exists>lu lv. lane u = Some lu \<and> lane v = Some lv \<and> lu < lv))"

text \<open>
  On the lanes \<open>lane\<close>, every edge from a node of \<open>A\<close> into a node of \<open>D\<close> that has no
  override goes up.
\<close>

definition raised ::
  "('k \<times> int) list \<Rightarrow> 'k edge list \<Rightarrow> ('k \<rightharpoonup> int) \<Rightarrow> 'k set \<Rightarrow> 'k set \<Rightarrow> bool" where
  "raised lane_override edges lane A D =
     (\<forall>(u, v)\<in>set edges. u \<in> A \<longrightarrow> v \<in> D \<longrightarrow> map_of lane_override v = None \<longrightarrow>
        (\<exists>lu lv. lane u = Some lu \<and> lane v = Some lv \<and> lu < lv))"

section \<open>Radial partition (src/charts/sunburst/builder.py)\<close>

text \<open>
  A node of the hierarchy is a Python dict with the keys \<open>label\<close> and \<open>value\<close> (both
  required by \<open>validate_sunburst\<close>), an optional list \<open>children\<close> (absent and empty are
  treated alike by the layout, and are both the empty list here) and the key \<open>inner\<close>, which
  the layout itself writes: \<open>None\<close> is the key being absent. Values are exact reals.
\<close>

datatype hier_node =
  Node (node_label: string) (node_value: real) (node_inner: "real option")
       (node_children: "hier_node list")

text \<open>A slice is the tuple \<open>(inner, outer, theta1, theta2, label, depth, value)\<close>.\<close>

type_synonym slice = "real \<times> real \<times> real \<times> real \<times> string \<times> int \<times> real"

fun slice_theta1 :: "slice \<Rightarrow> real" where
  "slice_theta1 (inner, outer, theta1, theta2, lbl, depth, v) = theta1"

fun slice_theta2 :: "slice \<Rightarrow> real" where
  "slice_theta2 (inner, outer, theta1, theta2, lbl, depth, v) = theta2"

text \<open>
  The angular span a wedge was allotted, before the gap was taken off both ends:
  \<open>theta2 - theta1 + gap_rad\<close>.
\<close>

fun slice_span :: "real \<Rightarrow> slice \<Rightarrow> real" where
  "slice_span gap_rad (inner, outer, theta1, theta2, lbl, depth, v) = theta2 - theta1 + gap_rad"

text \<open>The assignment \<open>node["inner"] = r\<close>.\<close>

fun set_inner :: "hier_node \<Rightarrow> real \<Rightarrow> hier_node" where
  "set_inner (Node lbl v inn chs) r = Node lbl v (Some r) chs"

fun node_count :: "hier_node \<Rightarrow> nat" where
  "node_count (Node lbl v inn chs) = Suc (sum_list (map node_count chs))"

text \<open>
  \<open>_layout\<close>, lines 12 to 25. The dicts are mutated in place and \<open>slices\<close> is appended to: the
  model returns the node as it is after the call, and the list. \<open>layout_children\<close> is the
  \<open>for ch in node["children"]\<close> loop with its running angle \<open>a\<close>; \<open>total\<close> and \<open>span\<close> (here
  \<open>total_v\<close> and \<open>span_rad\<close>) and
  \<open>outer\<close> are fixed during the loop. Reading \<open>node["inner"]\<close> on a node without the key
  raises KeyError.
\<close>

function layout_node ::
    "hier_node \<Rightarrow> real \<Rightarrow> real \<Rightarrow> int \<Rightarrow> real \<Rightarrow> real \<Rightarrow> int option \<Rightarrow> slice list
       \<Rightarrow> py_error + (hier_node \<times> slice list)"
  and layout_children ::
    "hier_node list \<Rightarrow> real \<Rightarrow> real \<Rightarrow> real \<Rightarrow> real \<Rightarrow> int \<Rightarrow> real \<Rightarrow> real \<Rightarrow> int option
       \<Rightarrow> slice list \<Rightarrow> py_error + (hier_node list \<times> slice list)"
where
  "layout_node (Node lbl v inn chs) start span_rad depth ring_thick gap_rad max_depth slices =
     (if (case max_depth of None \<Rightarrow> False | Some md \<Rightarrow> depth > md)
      then Inr (Node lbl v inn chs, slices)
      else (case inn of
              None \<Rightarrow> Inl KeyError
            | Some inner \<Rightarrow>
                (let outer = inner + ring_thick;
                     theta1 = start + gap_rad / 2;
                     theta2 = start + span_rad - gap_rad / 2;
                     slices1 = slices @ [(inner, outer, theta1, theta2, lbl, depth, v)]
                 in if chs \<noteq> []
                    then (let total_v = sum_list (map node_value chs)
                          in case layout_children chs start span_rad total_v outer depth ring_thick
                                    gap_rad max_depth slices1 of
                               Inl e \<Rightarrow> Inl e
                             | Inr (chs', slices2) \<Rightarrow> Inr (Node lbl v inn chs', slices2))
                    else Inr (Node lbl v inn chs, slices1))))"
| "layout_children [] a span_rad total_v outer depth ring_thick gap_rad max_depth slices =
     Inr ([], slices)"
| "layout_children (ch # rest) a span_rad total_v outer depth ring_thick gap_rad max_depth slices =
     (let frac = (if total_v > 0 then node_value ch / total_v else 0)
      in case layout_node (set_inner ch outer) a (span_rad * frac) (depth + 1) ring_thick gap_rad
                max_depth slices of
           Inl e \<Rightarrow> Inl e
         | Inr (ch', slices1) \<Rightarrow>
             (case layout_children rest (a + span_rad * frac) span_rad total_v outer depth ring_thick
                     gap_rad max_depth slices1 of
                Inl e \<Rightarrow> Inl e
              | Inr (rest', slices2) \<Rightarrow> Inr (ch' # rest', slices2)))"
  by pat_completeness auto
termination
proof (relation "measure (\<lambda>p. case p of
          Inl (n, start, span_rad, depth, ring_thick, gap_rad, max_depth, slices) \<Rightarrow> 2 * node_count n
        | Inr (chs, a, span_rad, total_v, outer, depth, ring_thick, gap_rad, max_depth, slices) \<Rightarrow>
            2 * sum_list (map node_count chs) + 1)", goal_cases)
  case 1
  show ?case by simp
next
  case (2 lbl v inn chs start span_rad depth ring_thick gap_rad max_depth slices)
  show ?case by simp
next
  case (3 ch rest a span_rad total_v outer depth ring_thick gap_rad max_depth slices)
  show ?case by (cases ch) simp
next
  case (4 ch rest a span_rad total_v outer depth ring_thick gap_rad max_depth slices)
  show ?case by (cases ch) simp
qed

text \<open>\<open>np.deg2rad\<close>.\<close>

definition deg2rad :: "real \<Rightarrow> real" where
  "deg2rad d = d * (pi / 180)"

text \<open>
  Lines 41 to 44 of \<open>build\<close>: \<open>root["inner"] = inner_frac\<close>, \<open>slices = []\<close> and the call
  \<open>_layout (root, np.deg2rad (start_angle), 2 * np.pi, 0, ring_thickness, gap_rad,
  max_depth, slices)\<close>; the result is the root as the call leaves it, and the slices.
\<close>

definition sunburst_layout ::
  "hier_node \<Rightarrow> real \<Rightarrow> real \<Rightarrow> real \<Rightarrow> real \<Rightarrow> int option \<Rightarrow> py_error + (hier_node \<times> slice list)" where
  "sunburst_layout root_node inner_frac start_angle ring_thickness gap_deg max_depth =
     layout_node (set_inner root_node inner_frac) (deg2rad start_angle) (2 * pi) 0 ring_thickness
       (deg2rad gap_deg) max_depth []"

text \<open>A hierarchy without its \<open>inner\<close> keys: what remains is every other field of every node.\<close>

fun erase_inner :: "hier_node \<Rightarrow> hier_node" where
  "erase_inner (Node lbl v inn chs) = Node lbl v None (map erase_inner chs)"

text \<open>The depth limit of line 14 stops the call at this depth.\<close>

definition cut_off :: "int option \<Rightarrow> int \<Rightarrow> bool" where
  "cut_off max_depth depth = (case max_depth of None \<Rightarrow> False | Some md \<Rightarrow> md < depth)"

text \<open>
  The hierarchy as a call at \<open>depth\<close> on a node holding the inner radius \<open>r\<close> is expected to
  leave it: the node holds \<open>r\<close>, and unless the call is cut off every child has been given
  the node's outer radius \<open>r + ring_thick\<close> and been laid out in turn, one level deeper.
\<close>

fun laid_out :: "hier_node \<Rightarrow> real \<Rightarrow> int \<Rightarrow> real \<Rightarrow> int option \<Rightarrow> hier_node" where
  "laid_out (Node lbl v inn chs) r depth ring_thick max_depth =
     Node lbl v (Some r)
       (if cut_off max_depth depth then chs
        else map (\<lambda>ch. laid_out ch (r + ring_thick) (depth + 1) ring_thick max_depth) chs)"

text \<open>
  Every node of a hierarchy that a call at \<open>depth\<close> lays out holds an inner radius, and each
  of its children holds that radius plus the ring thickness, at every depth.
\<close>

fun radii_written :: "hier_node \<Rightarrow> int \<Rightarrow> real \<Rightarrow> int option \<Rightarrow> bool" where
  "radii_written (Node lbl v inn chs) depth ring_thick max_depth =
     (cut_off max_depth depth \<or>
      (case inn of
         None \<Rightarrow> False
       | Some r \<Rightarrow>
           list_all (\<lambda>ch. node_inner ch = Some (r + ring_thick) \<and>
                          radii_written ch (depth + 1) ring_thick max_depth) chs))"

text \<open>
  The wedges expected of a call with the angular span 0 at the angle \<open>a\<close>, on a node given
  the inner radius \<open>r\<close>: unless the call is cut off, the node's own wedge, of width 0
  before the gap is taken off, then those of its children in order, each followed by its
  descendants', all at the same angle.
\<close>

fun zero_span_wedges ::
  "hier_node \<Rightarrow> real \<Rightarrow> real \<Rightarrow> int \<Rightarrow> real \<Rightarrow> real \<Rightarrow> int option \<Rightarrow> slice list" where
  "zero_span_wedges (Node lbl v inn chs) r a depth ring_thick gap_rad max_depth =
     (if cut_off max_depth depth then []
      else (r, r + ring_thick, a + gap_rad / 2, a - gap_rad / 2, lbl, depth, v)
             # concat (map (\<lambda>ch. zero_span_wedges ch (r + ring_thick) a (depth + 1) ring_thick
                                   gap_rad max_depth) chs))"

fun slice_depth :: "slice \<Rightarrow> int" where
  "slice_depth (inner, outer, theta1, theta2, lbl, depth, v) = depth"

text \<open>The wedge of a child of a node with outer radius \<open>outer\<close>, at the angle \<open>a\<close> with span 0.\<close>

definition child_wedge :: "real \<Rightarrow> real \<Rightarrow> int \<Rightarrow> real \<Rightarrow> real \<Rightarrow> hier_node \<Rightarrow> slice" where
  "child_wedge outer a depth ring_thick gap_rad ch =
     (outer, outer + ring_thick, a + gap_rad / 2, a - gap_rad / 2, node_label ch, depth,
      node_value ch)"

section \<open>Funnel: proofs\<close>

lemma np_clip_Fin:
  "np_clip (Fin a) (Fin (1 / 50)) (Fin 1) = Fin (spec_clamp a (1 / 50) 1)"
  by (simp add: np_clip_def spec_clamp_def min_def max_def)

lemma fold_np_maximum_Fin:
  "fold (\<lambda>x acc. np_maximum acc x) (map Fin vs) (Fin a) = Fin (fold max vs a)"
  by (induction vs arbitrary: a) (simp_all add: max.commute)

lemma np_max_Fin:
  assumes "vs \<noteq> []"
  shows "np_max (map Fin vs) = Inr (Fin (Max (set vs)))"
proof (cases vs)
  case Nil
  with assms show ?thesis by simp
next
  case (Cons a list)
  have "Max (set (a # list)) = fold max list a"
    by (rule Max.set_eq_fold)
  with Cons show ?thesis
    by (simp add: fold_np_maximum_Fin)
qed

lemma funnel_base_Fin:
  "vs \<noteq> [] \<Longrightarrow> funnel_base normalize_opt (map Fin vs) = Inr (Fin (spec_base normalize_opt vs))"
  using np_max_Fin [of vs]
  by (cases vs) (simp_all add: funnel_base_def spec_base_def del: np_max.simps)

text \<open>
  C6. For a non-empty sequence of finite stage values whose base (the first value under
  normalisation, the largest value otherwise) is not zero, the builder returns, stage by
  stage, \<open>clamp (value / base, 0.02, 1.0)\<close>: the minimum width is the constant 0.02. For the
  values 100, 80, 50, 20 (base 100 under either configuration) the widths are
  1.0, 0.8, 0.5, 0.2.
\<close>

theorem funnel_widths_clamp:
  "(vs \<noteq> [] \<and> spec_base normalize_opt vs \<noteq> 0 \<longrightarrow>
      funnel_build normalize_opt (map Fin vs) =
        Inr (map (\<lambda>v. Fin (spec_clamp (v / spec_base normalize_opt vs) 0.02 1.0)) vs))
   \<and> funnel_build nrm (map Fin [100, 80, 50, 20]) = Inr [Fin 1.0, Fin 0.8, Fin 0.5, Fin 0.2]"
proof (intro conjI impI)
  assume h: "vs \<noteq> [] \<and> spec_base normalize_opt vs \<noteq> 0"
  then show "funnel_build normalize_opt (map Fin vs) =
      Inr (map (\<lambda>v. Fin (spec_clamp (v / spec_base normalize_opt vs) 0.02 1.0)) vs)"
    by (simp add: funnel_build_def validate_funnel_def funnel_widths_def funnel_base_Fin
        np_clip_Fin)
next
  show "funnel_build nrm (map Fin [100, 80, 50, 20]) = Inr [Fin 1.0, Fin 0.8, Fin 0.5, Fin 0.2]"
    by (cases nrm)
      (simp_all add: funnel_build_def validate_funnel_def funnel_widths_def funnel_base_def
        np_clip_def)
qed

theorem funnel_widths_clamp_witness:
  "[3, 6, 0] \<noteq> ([]::real list) \<and> spec_base False [3, 6, 0] \<noteq> 0 \<and>
   funnel_build False [Fin 3, Fin 6, Fin 0] = Inr [Fin 0.5, Fin 1.0, Fin 0.02]"
  using funnel_widths_clamp [of "[3, 6, 0]" False True]
  by (simp add: spec_base_def spec_clamp_def)

text \<open>
  C10. The claim fails on the code where the base is zero: a funnel whose first stage has
  value 0 passes \<open>validate_funnel\<close>, and under the default normalisation its first width is
  \<open>0.0 / 0.0\<close>, a NaN that \<open>np.clip\<close> leaves as it is. A NaN lies in no interval.
\<close>

theorem funnel_zero_base_nan:
  "funnel_build True [Fin 0, Fin 5] = Inr [NaN, Fin 1.0]"
  by (simp add: funnel_build_def validate_funnel_def funnel_widths_def funnel_base_def
      np_clip_def)

section \<open>Squarify: proofs\<close>

lemma overlap_sym: "overlap p q = overlap q p"
  by (cases p rule: prod_cases4; cases q rule: prod_cases4) auto

lemma inside_no_overlap: "inside q c \<Longrightarrow> \<not> overlap p c \<Longrightarrow> \<not> overlap p q"
  by (cases p rule: prod_cases4; cases q rule: prod_cases4; cases c rule: prod_cases4) auto

lemma inside_trans: "inside p q \<Longrightarrow> inside q c \<Longrightarrow> inside p c"
  by (cases p rule: prod_cases4; cases q rule: prod_cases4; cases c rule: prod_cases4) auto

lemma sum_list_pos_real: "xs \<noteq> [] \<Longrightarrow> \<forall>r\<in>set xs. 0 < r \<Longrightarrow> 0 < (sum_list xs :: real)"
  by (induction xs) (auto intro: add_pos_nonneg sum_list_nonneg less_imp_le)

lemma sum_list_nonneg_real: "\<forall>r\<in>set xs. 0 < r \<Longrightarrow> 0 \<le> (sum_list xs :: real)"
  by (induction xs) auto

lemma layout_horizontal_area:
  "0 < hh \<Longrightarrow> map area (layout_horizontal 0 y hh xx row) = row"
  by (induction row arbitrary: xx) (simp_all add: Let_def)

lemma layout_horizontal_inside:
  "0 < hh \<Longrightarrow> \<forall>r\<in>set row. 0 < r \<Longrightarrow>
   \<forall>q\<in>set (layout_horizontal 0 y hh xx row). inside q (xx, y, sum_list row / hh, hh)"
proof (induction row arbitrary: xx)
  case Nil
  then show ?case by simp
next
  case (Cons r row)
  have s: "0 \<le> sum_list row / hh" using Cons.prems by (simp add: sum_list_nonneg_real)
  have r: "0 < r / hh" using Cons.prems by simp
  have "\<forall>q\<in>set (layout_horizontal 0 y hh (xx + r / hh) row).
          inside q (xx + r / hh, y, sum_list row / hh, hh)"
    using Cons by simp
  then have "\<forall>q\<in>set (layout_horizontal 0 y hh (xx + r / hh) row).
          inside q (xx, y, sum_list (r # row) / hh, hh)"
    using r by (auto simp: add_divide_distrib)
  then show ?case using s by (simp add: Let_def add_divide_distrib)
qed

lemma layout_horizontal_nonoverlapping:
  "0 < hh \<Longrightarrow> \<forall>r\<in>set row. 0 < r \<Longrightarrow> nonoverlapping (layout_horizontal 0 y hh xx row)"
proof (induction row arbitrary: xx)
  case Nil
  then show ?case by (simp add: nonoverlapping_def)
next
  case (Cons r row)
  have "\<forall>q\<in>set (layout_horizontal 0 y hh (xx + r / hh) row).
          inside q (xx + r / hh, y, sum_list row / hh, hh)"
    using Cons.prems layout_horizontal_inside by simp
  then have "\<forall>q\<in>set (layout_horizontal 0 y hh (xx + r / hh) row).
          \<not> overlap (xx, y, r / hh, hh) q"
    by auto
  then show ?case using Cons by (simp add: nonoverlapping_def Let_def)
qed

lemma layout_vertical_area:
  "0 < ww \<Longrightarrow> map area (layout_vertical 0 x ww yy row) = row"
  by (induction row arbitrary: yy) (simp_all add: Let_def)

lemma layout_vertical_inside:
  "0 < ww \<Longrightarrow> \<forall>r\<in>set row. 0 < r \<Longrightarrow>
   \<forall>q\<in>set (layout_vertical 0 x ww yy row). inside q (x, yy, ww, sum_list row / ww)"
proof (induction row arbitrary: yy)
  case Nil
  then show ?case by simp
next
  case (Cons r row)
  have s: "0 \<le> sum_list row / ww" using Cons.prems by (simp add: sum_list_nonneg_real)
  have r: "0 < r / ww" using Cons.prems by simp
  have "\<forall>q\<in>set (layout_vertical 0 x ww (yy + r / ww) row).
          inside q (x, yy + r / ww, ww, sum_list row / ww)"
    using Cons by simp
  then have "\<forall>q\<in>set (layout_vertical 0 x ww (yy + r / ww) row).
          inside q (x, yy, ww, sum_list (r # row) / ww)"
    using r by (auto simp: add_divide_distrib)
  then show ?case using s by (simp add: Let_def add_divide_distrib)
qed

lemma layout_vertical_nonoverlapping:
  "0 < ww \<Longrightarrow> \<forall>r\<in>set row. 0 < r \<Longrightarrow> nonoverlapping (layout_vertical 0 x ww yy row)"
proof (induction row arbitrary: yy)
  case Nil
  then show ?case by (simp add: nonoverlapping_def)
next
  case (Cons r row)
  have "\<forall>q\<in>set (layout_vertical 0 x ww (yy + r / ww) row).
          inside q (x, yy + r / ww, ww, sum_list row / ww)"
    using Cons.prems layout_vertical_inside by simp
  then have "\<forall>q\<in>set (layout_vertical 0 x ww (yy + r / ww) row).
          \<not> overlap (x, yy, ww, r / ww) q"
    by auto
  then show ?case using Cons by (simp add: nonoverlapping_def Let_def)
qed


lemma layout_strip:
  assumes W: "0 < W" and H: "0 < H" and ne: "row \<noteq> []" and pos: "\<forall>r\<in>set row. 0 < r"
    and le: "sum_list row \<le> W * H"
    and L: "layout 0 row x y W H horizontal = (new, cur')"
  shows "map area new = row \<and> (\<forall>q\<in>set new. inside q (x, y, W, H)) \<and>
      nonoverlapping new \<and> (\<forall>q\<in>set new. \<not> overlap q cur') \<and> inside cur' (x, y, W, H) \<and>
      (\<exists>x' y' w' h'. cur' = (x', y', w', h') \<and> w' * h' = W * H - sum_list row \<and>
           (sum_list row < W * H \<longrightarrow> 0 < w' \<and> 0 < h'))"
proof (cases horizontal)
  case True
  let ?s = "sum_list row"
  have s: "0 < ?s" using ne pos by (rule sum_list_pos_real)
  let ?hh = "?s / W"
  have hh: "0 < ?hh" using s W by simp
  have hhH: "?hh \<le> H" using le W by (simp add: divide_le_eq mult.commute)
  have sw: "?s / ?hh = W" using s W by simp
  have new: "new = layout_horizontal 0 y ?hh x row" and cur: "cur' = (x, y + ?hh, W, H - ?hh)"
    using L True by (simp_all add: layout_def Let_def)
  have strip: "\<forall>q\<in>set new. inside q (x, y, W, ?hh)"
    using layout_horizontal_inside [OF hh pos, of y x] sw new by simp
  have a: "map area new = row" using new hh by (simp add: layout_horizontal_area)
  have b: "\<forall>q\<in>set new. inside q (x, y, W, H)"
    using strip hhH by auto
  have c: "nonoverlapping new" using new hh pos by (simp add: layout_horizontal_nonoverlapping)
  have d: "\<forall>q\<in>set new. \<not> overlap q cur'"
    using strip cur by auto
  have e: "inside cur' (x, y, W, H)" using cur hh hhH by simp
  have f: "W * (H - ?hh) = W * H - ?s" using W by (simp add: right_diff_distrib)
  have g: "?s < W * H \<longrightarrow> 0 < H - ?hh" using W by (simp add: divide_less_eq mult.commute)
  from a b c d e f g cur W show ?thesis
    by simp
next
  case False
  let ?s = "sum_list row"
  have s: "0 < ?s" using ne pos by (rule sum_list_pos_real)
  let ?ww = "?s / H"
  have ww: "0 < ?ww" using s H by simp
  have wwW: "?ww \<le> W" using le H by (simp add: divide_le_eq)
  have sh: "?s / ?ww = H" using s H by simp
  have new: "new = layout_vertical 0 x ?ww y row" and cur: "cur' = (x + ?ww, y, W - ?ww, H)"
    using L False by (simp_all add: layout_def Let_def)
  have strip: "\<forall>q\<in>set new. inside q (x, y, ?ww, H)"
    using layout_vertical_inside [OF ww pos, of x y] sh new by simp
  have a: "map area new = row" using new ww by (simp add: layout_vertical_area)
  have b: "\<forall>q\<in>set new. inside q (x, y, W, H)"
    using strip wwW by auto
  have c: "nonoverlapping new" using new ww pos by (simp add: layout_vertical_nonoverlapping)
  have d: "\<forall>q\<in>set new. \<not> overlap q cur'"
    using strip cur by auto
  have e: "inside cur' (x, y, W, H)" using cur ww wwW by simp
  have f: "(W - ?ww) * H = W * H - ?s" using H by (simp add: left_diff_distrib)
  have g: "?s < W * H \<longrightarrow> 0 < W - ?ww" using H by (simp add: divide_less_eq)
  from a b c d e f g cur H show ?thesis
    by simp
qed


lemma nonoverlapping_append:
  "nonoverlapping (xs @ ys) =
     (nonoverlapping xs \<and> nonoverlapping ys \<and> (\<forall>p\<in>set xs. \<forall>q\<in>set ys. \<not> overlap p q))"
  by (simp add: nonoverlapping_def sorted_wrt_append)

lemma squarify_loop_correct:
  assumes "padding = 0" "0 < cw" "0 < ch" "\<forall>v\<in>set vals. 0 < v" "\<forall>v\<in>set row. 0 < v"
    "cw * ch = sum_list row + sum_list vals"
    "inside (cx, cy, cw, ch) C"
    "\<forall>q\<in>set rects. inside q C \<and> \<not> overlap q (cx, cy, cw, ch)"
    "nonoverlapping rects"
  shows "map area (squarify_loop padding vals row cx cy cw ch hor rects) = map area rects @ row @ vals
     \<and> (\<forall>q\<in>set (squarify_loop padding vals row cx cy cw ch hor rects). inside q C)
     \<and> nonoverlapping (squarify_loop padding vals row cx cy cw ch hor rects)"
  using assms
proof (induction padding vals row cx cy cw ch hor rects rule: squarify_loop.induct)
  case (1 padding row cx cy cw ch hor rects)
  show ?case
  proof (cases "row = []")
    case True
    with 1 show ?thesis by simp
  next
    case False
    obtain new cur' where L: "layout 0 row cx cy cw ch hor = (new, cur')"
      by (cases "layout 0 row cx cy cw ch hor") auto
    have le: "sum_list row \<le> cw * ch" using 1 by simp
    note S = layout_strip [OF "1.prems"(2,3) False "1.prems"(5) le L]
    have in_cur: "\<forall>q\<in>set new. inside q (cx, cy, cw, ch)" using S by simp
    have a: "\<forall>q\<in>set new. inside q C"
      using in_cur "1.prems"(7) inside_trans by blast
    have b: "\<forall>p\<in>set rects. \<forall>q\<in>set new. \<not> overlap p q"
      using in_cur "1.prems"(8) inside_no_overlap by blast
    have n1: "map area new = row" and n3: "nonoverlapping new" using S by simp_all
    have res: "squarify_loop padding [] row cx cy cw ch hor rects = rects @ new"
      using False L "1.prems"(1) by simp
    have old: "\<forall>q\<in>set rects. inside q C" using "1.prems"(8) by simp
    show ?thesis
      unfolding res using n1 n3 a b old "1.prems"(9)
      by (auto simp: nonoverlapping_append)
  qed
next
  case (2 padding v vals row cx cy cw ch hor rects)
  let ?accept = "row = [] \<or> le_inf (worst_ratio (row @ [v]) (min cw ch)) (worst_ratio row (min cw ch))"
  show ?case
  proof (cases ?accept)
    case True
    have "map area (squarify_loop padding vals (row @ [v]) cx cy cw ch hor rects)
            = map area rects @ (row @ [v]) @ vals
       \<and> (\<forall>q\<in>set (squarify_loop padding vals (row @ [v]) cx cy cw ch hor rects). inside q C)
       \<and> nonoverlapping (squarify_loop padding vals (row @ [v]) cx cy cw ch hor rects)"
      using "2.IH"(1) [OF True] "2.prems" by simp
    with True show ?thesis by simp
  next
    case False
    then have ne: "row \<noteq> []" by simp
    obtain new x' y' w' h' where L: "layout padding row cx cy cw ch hor = (new, (x', y', w', h'))"
      by (cases "layout padding row cx cy cw ch hor" rule: prod_cases5) auto
    have L0: "layout 0 row cx cy cw ch hor = (new, (x', y', w', h'))"
      using L "2.prems"(1) by simp
    have "0 < sum_list (v # vals)"
      using "2.prems"(4) by (intro sum_list_pos_real) simp_all
    then have lt: "sum_list row < cw * ch" using "2.prems"(6) by simp
    then have le: "sum_list row \<le> cw * ch" by simp
    note S = layout_strip [OF "2.prems"(2,3) ne "2.prems"(5) le L0]
    have in_cur: "\<forall>q\<in>set new. inside q (cx, cy, cw, ch)" using S by simp
    have cur_in: "inside (x', y', w', h') (cx, cy, cw, ch)" using S by simp
    have dims: "w' * h' = cw * ch - sum_list row" "0 < w'" "0 < h'"
      using S lt by auto
    have a: "\<forall>q\<in>set new. inside q C"
      using in_cur "2.prems"(7) inside_trans by blast
    have b: "\<forall>p\<in>set rects. \<forall>q\<in>set new. \<not> overlap p q"
      using in_cur "2.prems"(8) inside_no_overlap by blast
    have c: "\<forall>p\<in>set rects. \<not> overlap p (x', y', w', h')"
      using cur_in "2.prems"(8) inside_no_overlap by blast
    have d: "\<forall>q\<in>set new. \<not> overlap q (x', y', w', h')" using S by simp
    have e: "inside (x', y', w', h') C" using cur_in "2.prems"(7) inside_trans by blast
    have IH: "map area (squarify_loop padding (v # vals) [] x' y' w' h' (\<not> hor) (rects @ new))
            = map area (rects @ new) @ [] @ (v # vals)
       \<and> (\<forall>q\<in>set (squarify_loop padding (v # vals) [] x' y' w' h' (\<not> hor) (rects @ new)). inside q C)
       \<and> nonoverlapping (squarify_loop padding (v # vals) [] x' y' w' h' (\<not> hor) (rects @ new))"
    proof (rule "2.IH"(2) [OF False L [symmetric] refl refl refl])
      show "padding = 0" by (rule "2.prems"(1))
      show "0 < w'" "0 < h'" by (rule dims)+
      show "\<forall>v\<in>set (v # vals). 0 < v" by (rule "2.prems"(4))
      show "\<forall>v\<in>set []. 0 < (v::real)" by simp
      show "w' * h' = sum_list [] + sum_list (v # vals)" using dims(1) "2.prems"(6) by simp
      show "inside (x', y', w', h') C" by (rule e)
      show "\<forall>q\<in>set (rects @ new). inside q C \<and> \<not> overlap q (x', y', w', h')"
        using a c d "2.prems"(8) by auto
      show "nonoverlapping (rects @ new)"
        using S b "2.prems"(9) by (simp add: nonoverlapping_append)
    qed
    have "map area new = row" using S by simp
    with IH False L show ?thesis by simp
  qed
qed


lemma sum_list_scaled:
  "sum_list (map (\<lambda>v. v / s * a) xs) = sum_list xs / s * (a::real)"
  by (induction xs) (simp_all add: add_divide_distrib distrib_right)

lemma squarify_general:
  assumes pos: "\<forall>v\<in>set values. 0 < v" and w: "0 < w" and h: "0 < h"
  shows "map area (squarify values x y w h 0) = map (\<lambda>v. v / sum_list values * (w * h)) values
     \<and> (\<forall>q\<in>set (squarify values x y w h 0). inside q (x, y, w, h))
     \<and> nonoverlapping (squarify values x y w h 0)"
proof (cases "values = []")
  case True
  then show ?thesis by (simp add: squarify_def nonoverlapping_def)
next
  case False
  let ?vals = "map (\<lambda>v. v / sum_list values * (w * h)) values"
  have S: "0 < sum_list values" using False pos by (rule sum_list_pos_real)
  have vp: "\<forall>v\<in>set ?vals. 0 < v" using pos S w h by simp
  have "sum_list ?vals = sum_list values / sum_list values * (w * h)"
    by (rule sum_list_scaled)
  then have sum: "w * h = sum_list [] + sum_list ?vals"
    using S by simp
  have "map area (squarify_loop 0 ?vals [] x y w h True []) = map area [] @ [] @ ?vals
     \<and> (\<forall>q\<in>set (squarify_loop 0 ?vals [] x y w h True []). inside q (x, y, w, h))
     \<and> nonoverlapping (squarify_loop 0 ?vals [] x y w h True [])"
    using w h vp sum by (intro squarify_loop_correct) (simp_all add: nonoverlapping_def)
  then show ?thesis by (simp add: squarify_def)
qed

lemma squarify_scenario:
  "squarify [6, 6, 4, 3, 2, 2, 1] 0 0 6 4 0 =
     [(0, 0, 3, 2), (3, 0, 3, 2), (0, 2, 2, 2), (2, 2, 4, 3 / 4),
      (2, 11 / 4, 8 / 5, 5 / 4), (18 / 5, 11 / 4, 12 / 5, 5 / 6),
      (18 / 5, 43 / 12, 12 / 5, 5 / 12)]"
  by (simp add: squarify_def layout_def Let_def power2_eq_square)

text \<open>
  C1. For positive values and a container of positive width and height, with padding 0,
  \<open>_squarify\<close> returns one rectangle per value; the k-th rectangle has the area of the k-th
  value scaled to the container, so the order is the input's; no two rectangles overlap;
  all lie in the container; and, the sequence not being empty, their areas sum to
  \<open>w * h\<close>. For the values 6, 6, 4, 3, 2, 2, 1 in the container (0, 0, 6, 4) the seven
  rectangles are listed, and their areas are the values themselves.
\<close>

theorem squarify_tiles:
  "((\<forall>v\<in>set values. 0 < v) \<and> 0 < w \<and> 0 < h \<longrightarrow>
      length (squarify values x y w h 0) = length values
    \<and> map area (squarify values x y w h 0) = map (\<lambda>v. v / sum_list values * (w * h)) values
    \<and> (\<forall>i j. i < j \<and> j < length values \<longrightarrow>
          \<not> overlap (squarify values x y w h 0 ! i) (squarify values x y w h 0 ! j))
    \<and> (\<forall>q\<in>set (squarify values x y w h 0). inside q (x, y, w, h))
    \<and> (values \<noteq> [] \<longrightarrow> sum_list (map area (squarify values x y w h 0)) = w * h))
   \<and> squarify [6, 6, 4, 3, 2, 2, 1] 0 0 6 4 0 =
        [(0, 0, 3, 2), (3, 0, 3, 2), (0, 2, 2, 2), (2, 2, 4, 3 / 4),
         (2, 11 / 4, 8 / 5, 5 / 4), (18 / 5, 11 / 4, 12 / 5, 5 / 6),
         (18 / 5, 43 / 12, 12 / 5, 5 / 12)]
   \<and> map area (squarify [6, 6, 4, 3, 2, 2, 1] 0 0 6 4 0) = [6, 6, 4, 3, 2, 2, 1]"
proof (intro conjI impI)
  assume hyp: "(\<forall>v\<in>set values. 0 < v) \<and> 0 < w \<and> 0 < h"
  let ?out = "squarify values x y w h 0"
  have G: "map area ?out = map (\<lambda>v. v / sum_list values * (w * h)) values
     \<and> (\<forall>q\<in>set ?out. inside q (x, y, w, h)) \<and> nonoverlapping ?out"
    using hyp by (intro squarify_general) simp_all
  have "length (map area ?out) = length (map (\<lambda>v. v / sum_list values * (w * h)) values)"
    using G by simp
  then show len: "length ?out = length values" by simp
  show "map area ?out = map (\<lambda>v. v / sum_list values * (w * h)) values" using G by simp
  show "\<forall>i j. i < j \<and> j < length values \<longrightarrow> \<not> overlap (?out ! i) (?out ! j)"
    using G len by (simp add: nonoverlapping_def sorted_wrt_iff_nth_less)
  show "\<forall>q\<in>set ?out. inside q (x, y, w, h)" using G by simp
  assume ne: "values \<noteq> []"
  have S: "0 < sum_list values" using ne hyp by (intro sum_list_pos_real) simp_all
  have "sum_list (map area ?out) = sum_list (map (\<lambda>v. v / sum_list values * (w * h)) values)"
    using G by (simp only:)
  also have "\<dots> = sum_list values / sum_list values * (w * h)"
    by (rule sum_list_scaled)
  finally have "sum_list (map area ?out) = sum_list values / sum_list values * (w * h)" .
  then show "sum_list (map area ?out) = w * h" using S by simp
next
  show "squarify [6, 6, 4, 3, 2, 2, 1] 0 0 6 4 0 =
        [(0, 0, 3, 2), (3, 0, 3, 2), (0, 2, 2, 2), (2, 2, 4, 3 / 4),
         (2, 11 / 4, 8 / 5, 5 / 4), (18 / 5, 11 / 4, 12 / 5, 5 / 6),
         (18 / 5, 43 / 12, 12 / 5, 5 / 12)]"
    by (rule squarify_scenario)
next
  show "map area (squarify [6, 6, 4, 3, 2, 2, 1] 0 0 6 4 0) = [6, 6, 4, 3, 2, 2, 1]"
    by (simp add: squarify_scenario)
qed

text \<open>The theorem at the scenario of C1: its hypotheses hold there.\<close>

theorem squarify_tiles_witness:
  "list_all (\<lambda>v. 0 < v) [6, 6, 4, 3, 2, 2, 1 :: real] \<and> (0::real) < 6 \<and> (0::real) < 4
   \<and> length (squarify [6, 6, 4, 3, 2, 2, 1] 0 0 6 4 0) = 7
   \<and> \<not> overlap (squarify [6, 6, 4, 3, 2, 2, 1] 0 0 6 4 0 ! 2) (squarify [6, 6, 4, 3, 2, 2, 1] 0 0 6 4 0 ! 5)
   \<and> list_all (\<lambda>q. inside q (0, 0, 6, 4)) (squarify [6, 6, 4, 3, 2, 2, 1] 0 0 6 4 0)
   \<and> sum_list (map area (squarify [6, 6, 4, 3, 2, 2, 1] 0 0 6 4 0)) = 6 * 4"
proof -
  have hyp: "(\<forall>v\<in>set [6, 6, 4, 3, 2, 2, 1 :: real]. 0 < v) \<and> (0::real) < 6 \<and> (0::real) < 4"
    by simp
  have ne: "[6, 6, 4, 3, 2, 2, 1 :: real] \<noteq> []" by simp
  note T = squarify_tiles [of "[6, 6, 4, 3, 2, 2, 1]" 6 4 0 0, THEN conjunct1, rule_format, OF hyp]
  have a: "length (squarify [6, 6, 4, 3, 2, 2, 1] 0 0 6 4 0) = 7" using T by simp
  have b: "\<not> overlap (squarify [6, 6, 4, 3, 2, 2, 1] 0 0 6 4 0 ! 2)
                      (squarify [6, 6, 4, 3, 2, 2, 1] 0 0 6 4 0 ! 5)"
    using T by simp
  have c: "list_all (\<lambda>q. inside q (0, 0, 6, 4)) (squarify [6, 6, 4, 3, 2, 2, 1] 0 0 6 4 0)"
    using T by (simp add: list_all_iff)
  have d: "sum_list (map area (squarify [6, 6, 4, 3, 2, 2, 1] 0 0 6 4 0)) = 6 * 4"
    using T ne by blast
  from a b c d show ?thesis by simp
qed

lemma fold_max_Max: "fold max rs (r::real) = Max (set (r # rs))"
  by (rule Max.set_eq_fold [symmetric])

lemma fold_min_Min: "fold min rs (r::real) = Min (set (r # rs))"
  by (rule Min.set_eq_fold [symmetric])

text \<open>
  C4, as the code has it. For a non-empty row with sum \<open>S\<close>, largest value \<open>max_v\<close>,
  smallest value \<open>min_v\<close> and shorter side \<open>T\<close>, the metric is
  \<open>max (T\<^sup>2 * max_v / S\<^sup>2, S\<^sup>2 / (T\<^sup>2 * min_v))\<close>: the formula of Bruls et al., with
  \<open>S\<close> and \<open>T\<close> the other way round than in the claim.
\<close>

theorem worst_ratio_formula:
  "row \<noteq> [] \<longrightarrow>
     worst_ratio row T =
       Some (max (T ^ 2 * Max (set row) / (sum_list row) ^ 2)
                 ((sum_list row) ^ 2 / (T ^ 2 * Min (set row))))"
proof (cases row)
  case Nil
  then show ?thesis by simp
next
  case (Cons r rs)
  show ?thesis
    unfolding Cons worst_ratio.simps Let_def fold_max_Max fold_min_Min by simp
qed

text \<open>The formula of C4 at the row 6, 6, 4 and the side 4.\<close>

theorem worst_ratio_formula_witness:
  "[6, 6, 4] \<noteq> ([]::real list) \<and> worst_ratio [6, 6, 4] 4 = Some 4"
  using worst_ratio_formula [of "[6, 6, 4]" 4] by simp

text \<open>
  C4 as stated fails: for the row of the single value 2 and the side 1 the code returns 2,
  the formula of the claim gives 8.
\<close>

theorem worst_ratio_not_spec_formula:
  "worst_ratio [2] 1 = Some 2 \<and>
   spec_worst_ratio (sum_list [2]) (Max (set [2])) (Min (set [2])) 1 = 8 \<and>
   worst_ratio [2] 1 \<noteq> Some (spec_worst_ratio (sum_list [2]) (Max (set [2])) (Min (set [2])) 1)"
  by (simp add: spec_worst_ratio_def)

lemma layout_length: "length (fst (layout padding row x y W H horizontal)) = length row"
proof -
  have h: "length (layout_horizontal padding y' hh xx row) = length row" for y' hh xx
    by (induction row arbitrary: xx) (simp_all add: Let_def)
  have v: "length (layout_vertical padding x' ww yy row) = length row" for x' ww yy
    by (induction row arbitrary: yy) (simp_all add: Let_def)
  show ?thesis by (simp add: layout_def Let_def h v)
qed

lemma squarify_loop_length:
  "length (squarify_loop padding vals row cx cy cw ch hor rects) =
     length rects + length row + length vals"
proof (induction padding vals row cx cy cw ch hor rects rule: squarify_loop.induct)
  case (1 padding row cx cy cw ch hor rects)
  show ?case by (simp add: layout_length)
next
  case (2 padding v vals row cx cy cw ch hor rects)
  let ?accept = "row = [] \<or> le_inf (worst_ratio (row @ [v]) (min cw ch)) (worst_ratio row (min cw ch))"
  show ?case
  proof (cases ?accept)
    case True
    with "2.IH"(1) show ?thesis by simp
  next
    case False
    obtain new x' y' w' h' where L: "layout padding row cx cy cw ch hor = (new, (x', y', w', h'))"
      by (cases "layout padding row cx cy cw ch hor" rule: prod_cases5) auto
    have n: "length new = length row"
      using layout_length [of padding row cx cy cw ch hor] L by simp
    have "length (squarify_loop padding (v # vals) [] x' y' w' h' (\<not> hor) (rects @ new)) =
            length (rects @ new) + length ([]::real list) + length (v # vals)"
      by (rule "2.IH"(2) [OF False L [symmetric] refl refl refl])
    with False L n show ?thesis by simp
  qed
qed

text \<open>
  C7, as the code has it. \<open>_squarify\<close> checks nothing and raises nothing: whatever the
  values, the container and the padding, it returns one rectangle per value. The rejection
  is upstream: \<open>validate_treemap\<close> accepts exactly the non-empty item lists whose values are
  all greater than 0, so the values that reach the layout through \<open>build\<close> have a positive
  sum.
\<close>

theorem squarify_no_input_check:
  "length (squarify values x y w h padding) = length values
   \<and> (validate_treemap values = Inr () \<longleftrightarrow> values \<noteq> [] \<and> (\<forall>v\<in>set values. 0 < v))
   \<and> (validate_treemap values = Inr () \<longrightarrow> 0 < sum_list values)"
proof (intro conjI)
  show "length (squarify values x y w h padding) = length values"
    by (simp add: squarify_def squarify_loop_length)
  show v: "validate_treemap values = Inr () \<longleftrightarrow> values \<noteq> [] \<and> (\<forall>v\<in>set values. 0 < v)"
    by (simp add: validate_treemap_def list_all_iff)
  show "validate_treemap values = Inr () \<longrightarrow> 0 < sum_list values"
    using v by (auto intro: sum_list_pos_real)
qed

text \<open>
  C7 at concrete inputs: a container of width -1 and height 0 still gives two rectangles,
  and the validator accepts 1, 2 and rejects 1, 0 and the empty list.
\<close>

theorem squarify_no_input_check_witness:
  "length (squarify [1, 2] 0 0 (- 1) 0 3) = 2 \<and> validate_treemap [1, 2] = Inr ()
   \<and> validate_treemap [1, 0] = Inl ValueError \<and> validate_treemap [] = Inl ValueError"
  using squarify_no_input_check [of "[1, 2]" 0 0 "- 1" 0 3]
    squarify_no_input_check [of "[1, 0]" 0 0 1 1 0]
    squarify_no_input_check [of "[]" 0 0 1 1 0]
  by (simp add: validate_treemap_def)

text \<open>
  C7 as stated fails: for a container of width -1 the function returns a rectangle, of
  width -1, and no error.
\<close>

theorem squarify_degenerate_container_returns:
  "squarify [1] 0 0 (- 1) 1 0 = [(0, 0, - 1, 1)]"
  by (simp add: squarify_def layout_def Let_def)

lemma layout_remaining: "snd (layout padding row x y W H hor) = snd (layout 0 row x y W H hor)"
  by (simp add: layout_def Let_def)

lemma squarify_loop_strips:
  "squarify_loop padding vals row cx cy cw ch hor rects =
     rects @ concat (map (strip_rects padding) (squarify_strips vals row cx cy cw ch hor))"
proof (induction padding vals row cx cy cw ch hor rects rule: squarify_loop.induct)
  case (1 padding row cx cy cw ch hor rects)
  show ?case by simp
next
  case (2 padding v vals row cx cy cw ch hor rects)
  let ?accept = "row = [] \<or> le_inf (worst_ratio (row @ [v]) (min cw ch)) (worst_ratio row (min cw ch))"
  show ?case
  proof (cases ?accept)
    case True
    with "2.IH"(1) show ?thesis by simp
  next
    case False
    obtain new x' y' w' h' where L: "layout padding row cx cy cw ch hor = (new, (x', y', w', h'))"
      by (cases "layout padding row cx cy cw ch hor" rule: prod_cases5) auto
    obtain new0 where L0: "layout 0 row cx cy cw ch hor = (new0, (x', y', w', h'))"
      using layout_remaining [of padding row cx cy cw ch hor] L
      by (cases "layout 0 row cx cy cw ch hor") auto
    have "squarify_loop padding (v # vals) [] x' y' w' h' (\<not> hor) (rects @ new) =
            (rects @ new) @ concat (map (strip_rects padding)
              (squarify_strips (v # vals) [] x' y' w' h' (\<not> hor)))"
      by (rule "2.IH"(2) [OF False L [symmetric] refl refl refl])
    with False L L0 show ?thesis by simp
  qed
qed

lemma squarify_strips_alternate:
  "map strip_horizontal (squarify_strips vals row cx cy cw ch hor) =
     map (\<lambda>k. even k = hor) [0..<length (squarify_strips vals row cx cy cw ch hor)]"
proof (induction vals row cx cy cw ch hor rule: squarify_strips.induct)
  case (1 row cx cy cw ch hor)
  show ?case by simp
next
  case (2 v vals row cx cy cw ch hor)
  let ?accept = "row = [] \<or> le_inf (worst_ratio (row @ [v]) (min cw ch)) (worst_ratio row (min cw ch))"
  show ?case
  proof (cases ?accept)
    case True
    with "2.IH"(1) show ?thesis by simp
  next
    case False
    obtain new x' y' w' h' where L: "layout 0 row cx cy cw ch hor = (new, (x', y', w', h'))"
      by (cases "layout 0 row cx cy cw ch hor" rule: prod_cases5) auto
    let ?rest = "squarify_strips (v # vals) [] x' y' w' h' (\<not> hor)"
    have IH: "map strip_horizontal ?rest = map (\<lambda>k. even k = (\<not> hor)) [0..<length ?rest]"
      by (rule "2.IH"(2) [OF False L [symmetric] refl refl refl])
    have "map (\<lambda>k. even k = hor) [0..<Suc (length ?rest)] =
            hor # map (\<lambda>k. even k = (\<not> hor)) [0..<length ?rest]"
      by (auto simp add: upt_conv_Cons map_Suc_upt [symmetric] simp del: upt_Suc)
    with IH False L show ?thesis by simp
  qed
qed

text \<open>
  The result of \<open>_squarify\<close> is the concatenation of its strips, in order, and the flag
  \<open>horizontal\<close> of the k-th strip (from 0) is set exactly when k is even: lines 39 and 46
  fix it without looking at the remaining rectangle.
\<close>

lemma squarify_flag_alternates:
  "squarify values x y w h padding =
     concat (map (strip_rects padding) (squarify_rows values x y w h))
   \<and> map strip_horizontal (squarify_rows values x y w h) =
       map even [0..<length (squarify_rows values x y w h)]"
  using squarify_strips_alternate [of "map (\<lambda>v. v / sum_list values * (w * h)) values" "[]" x y w h True]
  by (simp add: squarify_def squarify_rows_def squarify_loop_strips)

text \<open>
  C9. The code does not do what the claim says, and what its own row test assumes. For the
  values 6, 6, 4, 3, 2, 2, 1 in the unit container that \<open>build\<close> passes, the third row
  (the value 1/8 after scaling) is closed on the remaining rectangle of width 2/3 and
  height 1/2. The row test of line 42 rated it against the shorter side, the height 1/2,
  with worst ratio 2: that is the ratio of a strip laid along the height. The flag is
  \<open>True\<close> all the same, so \<open>layout\<close> lays the strip along the width, the longer side, and
  the rectangle it appends is 2/3 by 3/16, of aspect ratio 32/9. In the container 6 by 4 of
  the specification's scenario every remaining rectangle is wider than high, and the
  strips are horizontal, vertical, horizontal, vertical, horizontal, vertical.
\<close>

theorem squarify_orientation_ignores_shorter_side:
  "squarify_rows [6, 6, 4, 3, 2, 2, 1] 0 0 1 1 =
     [([1 / 4, 1 / 4], (0, 0, 1, 1), True),
      ([1 / 6], (0, 1 / 2, 1, 1 / 2), False),
      ([1 / 8], (1 / 3, 1 / 2, 2 / 3, 1 / 2), True),
      ([1 / 12], (1 / 3, 11 / 16, 2 / 3, 5 / 16), False),
      ([1 / 12], (3 / 5, 11 / 16, 2 / 5, 5 / 16), True),
      ([1 / 24], (3 / 5, 43 / 48, 2 / 5, 5 / 48), False)]
   \<and> worst_ratio [1 / 8] (min (2 / 3) (1 / 2)) = Some 2
   \<and> strip_rects 0 ([1 / 8], (1 / 3, 1 / 2, 2 / 3, 1 / 2), True) = [(1 / 3, 1 / 2, 2 / 3, 3 / 16)]
   \<and> (2 / 3) / (3 / 16) = (32 / 9 :: real)
   \<and> squarify_rows [6, 6, 4, 3, 2, 2, 1] 0 0 6 4 =
     [([6, 6], (0, 0, 6, 4), True), ([4], (0, 2, 6, 2), False),
      ([3], (2, 2, 4, 2), True), ([2], (2, 11 / 4, 4, 5 / 4), False),
      ([2], (18 / 5, 11 / 4, 12 / 5, 5 / 4), True),
      ([1], (18 / 5, 43 / 12, 12 / 5, 5 / 12), False)]"
  by (simp add: squarify_rows_def layout_def Let_def power2_eq_square)

section \<open>Sankey flow layout: proofs\<close>

lemma sum_flows_totals:
  "sum_flows ids links in_sums out_sums = Inr (in_sums', out_sums') \<Longrightarrow>
   out_sums' k = out_sums k + sum_list (map lk_value (filter (\<lambda>e. lk_source e = k) links)) \<and>
   in_sums' k = in_sums k + sum_list (map lk_value (filter (\<lambda>e. lk_target e = k) links))"
proof (induction links arbitrary: in_sums out_sums)
  case Nil
  then show ?case by simp
next
  case (Cons e links)
  from Cons.prems have
    R: "sum_flows ids links (in_sums(lk_target e := in_sums (lk_target e) + lk_value e))
          (out_sums(lk_source e := out_sums (lk_source e) + lk_value e)) = Inr (in_sums', out_sums')"
    by (simp split: if_splits)
  from Cons.IH [OF R] show ?case by simp
qed

lemma link_ribbons_totals:
  "link_ribbons lay u links out_offset in_offset = Inr rs \<Longrightarrow>
   sum_list (map rb_h (filter (\<lambda>r. rb_source r = k) rs)) =
     sum_list (map lk_value (filter (\<lambda>e. lk_source e = k) links)) * u \<and>
   sum_list (map rb_h (filter (\<lambda>r. rb_target r = k) rs)) =
     sum_list (map lk_value (filter (\<lambda>e. lk_target e = k) links)) * u"
proof (induction links arbitrary: out_offset in_offset rs)
  case Nil
  then show ?case by simp
next
  case (Cons e links)
  from Cons.prems obtain rs' y0 y1 where
    R: "link_ribbons lay u links
          (out_offset(lk_source e := out_offset (lk_source e) + lk_value e * u))
          (in_offset(lk_target e := in_offset (lk_target e) + lk_value e * u)) = Inr rs'"
    and rs: "rs = \<lparr>rb_source = lk_source e, rb_target = lk_target e,
                    rb_y0 = y0, rb_y1 = y1, rb_h = lk_value e * u\<rparr> # rs'"
    by (auto simp: Let_def split: option.splits sum.splits)
  from Cons.IH [OF R] rs show ?case by (simp add: distrib_right)
qed

text \<open>
  The layout raises only for a scale of zero: on input that \<open>validate_sankey\<close> accepts the
  flow sums are computed, and \<open>build\<close> returns its geometry unless the largest column total
  is 0, where the division raises ZeroDivisionError.
\<close>

lemma sum_flows_succeeds:
  "\<forall>e\<in>set links. lk_source e \<in> set ids \<and> lk_target e \<in> set ids \<Longrightarrow>
   \<exists>r. sum_flows ids links in_sums out_sums = Inr r"
  by (induction links arbitrary: in_sums out_sums) simp_all

lemma link_ribbons_succeeds:
  "\<forall>e\<in>set links. lk_source e \<in> dom lay \<and> lk_target e \<in> dom lay \<Longrightarrow>
   \<exists>rs. link_ribbons lay u links out_offset in_offset = Inr rs"
proof (induction links arbitrary: out_offset in_offset)
  case Nil
  show ?case by simp
next
  case (Cons e links)
  then obtain s_y0 s_h t_y0 t_h where
    s: "lay (lk_source e) = Some (s_y0, s_h)" and t: "lay (lk_target e) = Some (t_y0, t_h)"
    by fastforce
  from Cons obtain rs where
    "link_ribbons lay u links (out_offset(lk_source e := out_offset (lk_source e) + lk_value e * u))
       (in_offset(lk_target e := in_offset (lk_target e) + lk_value e * u)) = Inr rs"
    by fastforce
  with s t show ?case by (simp add: Let_def)
qed

lemma stack_from_length: "length (stack_from y sizes padding_px) = length sizes"
  by (induction sizes arbitrary: y) simp_all

lemma column_layout_keys:
  "map fst (column_layout nodes_c units u node_pad usable_h_px) = map sn_id nodes_c"
  by (simp add: column_layout_def Let_def stack_positions_def stack_from_length)

lemma fold_update_dom:
  "dom (fold (\<lambda>(k, yh) lay'. lay'(k \<mapsto> yh)) kvs lay) = dom lay \<union> fst ` set kvs"
  by (induction kvs arbitrary: lay) auto

lemma fold_columns_dom:
  "dom (fold (\<lambda>c lay. fold (\<lambda>(k, yh) lay'. lay'(k \<mapsto> yh))
                         (column_layout (by_col nodes c) units u node_pad usable_h_px) lay)
             cs lay0) =
     dom lay0 \<union> (\<Union>c\<in>set cs. sn_id ` set (by_col nodes c))"
proof (induction cs arbitrary: lay0)
  case Nil
  show ?case by simp
next
  case (Cons c cs)
  have k: "fst ` set (column_layout (by_col nodes c) units u node_pad usable_h_px) =
          sn_id ` set (by_col nodes c)"
    using column_layout_keys [of "by_col nodes c" units u node_pad usable_h_px]
    by (metis set_map)
  show ?case
    apply (simp only: fold_Cons comp_apply Cons.IH fold_update_dom k)
    apply auto
    done
qed

lemma node_layout_dom:
  "dom (node_layout nodes units u node_pad usable_h_px) = sn_id ` set nodes"
proof -
  have "(\<Union>c\<in>set (cols_sorted nodes). sn_id ` set (by_col nodes c)) = sn_id ` set nodes"
    by (auto simp: cols_sorted_def by_col_def)
  then show ?thesis by (simp add: node_layout_def fold_columns_dom)
qed

lemma validate_sankey_endpoints:
  assumes "validate_sankey nodes links = Inr ()"
  shows "\<forall>e\<in>set links. lk_source e \<in> sn_id ` set nodes \<and> lk_target e \<in> sn_id ` set nodes"
proof
  fix e assume e: "e \<in> set links"
  let ?cols = "map_of (map (\<lambda>n. (sn_id n, sn_col n)) (rev nodes))"
  from assms e have "?cols (lk_source e) \<noteq> None \<and> ?cols (lk_target e) \<noteq> None"
    by (auto simp: validate_sankey_def list_ex_iff split: if_splits)
  moreover have "fst ` set (map (\<lambda>n. (sn_id n, sn_col n)) (rev nodes)) = sn_id ` set nodes"
    by (simp add: image_image)
  ultimately show "lk_source e \<in> sn_id ` set nodes \<and> lk_target e \<in> sn_id ` set nodes"
    by (simp only: map_of_eq_None_iff not_not)
qed

lemma sankey_build_succeeds:
  assumes v: "validate_sankey nodes links = Inr ()"
  shows "\<exists>in_sums out_sums.
           sum_flows (map sn_id nodes) links (\<lambda>k. 0) (\<lambda>k. 0) = Inr (in_sums, out_sums) \<and>
           (if global_max nodes (node_size_units in_sums out_sums) = 0
            then sankey_build nodes links height node_pad = Inl ZeroDivisionError
            else \<exists>g. sankey_build nodes links height node_pad = Inr g)"
proof -
  note E = validate_sankey_endpoints [OF v]
  from E obtain in_sums out_sums where
    F: "sum_flows (map sn_id nodes) links (\<lambda>k. 0) (\<lambda>k. 0) = Inr (in_sums, out_sums)"
    using sum_flows_succeeds [of links "map sn_id nodes" "\<lambda>k. 0" "\<lambda>k. 0"] by auto
  let ?units = "node_size_units in_sums out_sums"
  show ?thesis
  proof (cases "global_max nodes ?units = 0")
    case True
    with v F show ?thesis by (simp add: sankey_build_def unit_to_px_def Let_def)
  next
    case False
    let ?u = "height * 0.85 / global_max nodes ?units"
    let ?lay = "node_layout nodes ?units ?u node_pad (height * 0.85)"
    from E obtain rs where R: "link_ribbons ?lay ?u links (\<lambda>k. 0) (\<lambda>k. 0) = Inr rs"
      using link_ribbons_succeeds [of links ?lay ?u "\<lambda>k. 0" "\<lambda>k. 0"]
      by (auto simp: node_layout_dom)
    with v F False show ?thesis by (simp add: sankey_build_def unit_to_px_def Let_def)
  qed
qed

lemma sankey_scenario:
  "\<exists>lay. sankey_build
     [\<lparr>sn_id = ''A'', sn_col = 0\<rparr>, \<lparr>sn_id = ''B'', sn_col = 1\<rparr>, \<lparr>sn_id = ''C'', sn_col = 1\<rparr>]
     [\<lparr>lk_source = ''A'', lk_target = ''B'', lk_value = 3\<rparr>,
      \<lparr>lk_source = ''A'', lk_target = ''C'', lk_value = 7\<rparr>] 640 6 =
   Inr \<lparr>sg_in_sums = (\<lambda>k. 0)(''B'' := 3, ''C'' := 7), sg_out_sums = (\<lambda>k. 0)(''A'' := 10),
        sg_unit_to_px = 272 / 5, sg_node_layout = lay,
        sg_ribbons =
          [\<lparr>rb_source = ''A'', rb_target = ''B'', rb_y0 = 0, rb_y1 = - (9 / 2), rb_h = 816 / 5\<rparr>,
           \<lparr>rb_source = ''A'', rb_target = ''C'', rb_y0 = 816 / 5, rb_y1 = 1677 / 10,
             rb_h = 1904 / 5\<rparr>]\<rparr>"
  by (simp add: sankey_build_def validate_sankey_def node_size_units_def
      global_max_def max_in_col_def by_col_def cols_sorted_def unit_to_px_def node_layout_def
      column_layout_def stack_positions_def Let_def)

text \<open>
  C2. Whenever \<open>build\<close> returns its geometry, for every node the thicknesses of the ribbons
  that leave it sum to its total outflow times the scale \<open>unit_to_px\<close>, and the thicknesses
  of the ribbons that enter it sum to its total inflow times the same scale; the totals are
  the sums of the values of the links out of and into the node. Over exact reals the
  equations hold without tolerance.
\<close>

theorem sankey_flow_conservation:
  "sankey_build nodes links height node_pad = Inr g \<longrightarrow>
     (\<forall>n\<in>set nodes.
        sum_list (map rb_h (filter (\<lambda>r. rb_source r = sn_id n) (sg_ribbons g))) =
          sg_out_sums g (sn_id n) * sg_unit_to_px g
      \<and> sum_list (map rb_h (filter (\<lambda>r. rb_target r = sn_id n) (sg_ribbons g))) =
          sg_in_sums g (sn_id n) * sg_unit_to_px g
      \<and> sg_out_sums g (sn_id n) =
          sum_list (map lk_value (filter (\<lambda>e. lk_source e = sn_id n) links))
      \<and> sg_in_sums g (sn_id n) =
          sum_list (map lk_value (filter (\<lambda>e. lk_target e = sn_id n) links)))"
proof (intro impI ballI)
  fix n
  assume B: "sankey_build nodes links height node_pad = Inr g"
  then obtain in_sums out_sums u lay rs where
    F: "sum_flows (map sn_id nodes) links (\<lambda>k. 0) (\<lambda>k. 0) = Inr (in_sums, out_sums)"
    and R: "link_ribbons lay u links (\<lambda>k. 0) (\<lambda>k. 0) = Inr rs"
    and g: "g = \<lparr>sg_in_sums = in_sums, sg_out_sums = out_sums, sg_unit_to_px = u,
                  sg_node_layout = lay, sg_ribbons = rs\<rparr>"
    by (auto simp: sankey_build_def Let_def split: sum.splits)
  have o: "out_sums (sn_id n) =
              sum_list (map lk_value (filter (\<lambda>e. lk_source e = sn_id n) links))"
    and i: "in_sums (sn_id n) =
              sum_list (map lk_value (filter (\<lambda>e. lk_target e = sn_id n) links))"
    using sum_flows_totals [OF F, of "sn_id n"] by simp_all
  have ro: "sum_list (map rb_h (filter (\<lambda>r. rb_source r = sn_id n) rs)) =
              sum_list (map lk_value (filter (\<lambda>e. lk_source e = sn_id n) links)) * u"
    and ri: "sum_list (map rb_h (filter (\<lambda>r. rb_target r = sn_id n) rs)) =
              sum_list (map lk_value (filter (\<lambda>e. lk_target e = sn_id n) links)) * u"
    using link_ribbons_totals [OF R, of "sn_id n"] by simp_all
  show "sum_list (map rb_h (filter (\<lambda>r. rb_source r = sn_id n) (sg_ribbons g))) =
          sg_out_sums g (sn_id n) * sg_unit_to_px g
      \<and> sum_list (map rb_h (filter (\<lambda>r. rb_target r = sn_id n) (sg_ribbons g))) =
          sg_in_sums g (sn_id n) * sg_unit_to_px g
      \<and> sg_out_sums g (sn_id n) =
          sum_list (map lk_value (filter (\<lambda>e. lk_source e = sn_id n) links))
      \<and> sg_in_sums g (sn_id n) =
          sum_list (map lk_value (filter (\<lambda>e. lk_target e = sn_id n) links))"
    unfolding g by (simp add: o i ro ri)
qed

text \<open>
  C2 on the scenario of the specification: A in column 0, B and C in column 1, links of
  value 3 and 7, at the default height 640 and node padding 6.
\<close>

theorem sankey_flow_conservation_witness:
  "\<exists>g. sankey_build
         [\<lparr>sn_id = ''A'', sn_col = 0\<rparr>, \<lparr>sn_id = ''B'', sn_col = 1\<rparr>, \<lparr>sn_id = ''C'', sn_col = 1\<rparr>]
         [\<lparr>lk_source = ''A'', lk_target = ''B'', lk_value = 3\<rparr>,
          \<lparr>lk_source = ''A'', lk_target = ''C'', lk_value = 7\<rparr>] 640 6 = Inr g
     \<and> sg_unit_to_px g = 272 / 5
     \<and> sg_out_sums g ''A'' = 10
     \<and> sum_list (map rb_h (filter (\<lambda>r. rb_source r = ''A'') (sg_ribbons g))) = 10 * (272 / 5)
     \<and> sg_in_sums g ''C'' = 7
     \<and> sum_list (map rb_h (filter (\<lambda>r. rb_target r = ''C'') (sg_ribbons g))) = 7 * (272 / 5)"
proof -
  let ?N = "[\<lparr>sn_id = ''A'', sn_col = 0\<rparr>, \<lparr>sn_id = ''B'', sn_col = 1\<rparr>, \<lparr>sn_id = ''C'', sn_col = 1\<rparr>]"
  let ?L = "[\<lparr>lk_source = ''A'', lk_target = ''B'', lk_value = 3\<rparr>,
             \<lparr>lk_source = ''A'', lk_target = ''C'', lk_value = 7\<rparr>]"
  from sankey_scenario obtain g where
    B: "sankey_build ?N ?L 640 6 = Inr g" and u: "sg_unit_to_px g = 272 / 5"
    and o: "sg_out_sums g ''A'' = 10" and i: "sg_in_sums g ''C'' = 7"
    by force
  note T = sankey_flow_conservation [of ?N ?L 640 6 g, rule_format, OF B]
  have "sum_list (map rb_h (filter (\<lambda>r. rb_source r = ''A'') (sg_ribbons g))) =
          sg_out_sums g ''A'' * sg_unit_to_px g"
    using T [of "\<lparr>sn_id = ''A'', sn_col = 0\<rparr>"] by simp
  moreover have "sum_list (map rb_h (filter (\<lambda>r. rb_target r = ''C'') (sg_ribbons g))) =
          sg_in_sums g ''C'' * sg_unit_to_px g"
    using T [of "\<lparr>sn_id = ''C'', sn_col = 1\<rparr>"] by simp
  ultimately show ?thesis using B u o i by auto
qed

section \<open>Graph lane assignment: proofs\<close>

lemma lane_pass_changed:
  "lane_pass lane_override edges nodes lane True = Inr (lane', c) \<Longrightarrow> c"
proof (induction nodes arbitrary: lane)
  case Nil
  then show ?case by simp
next
  case (Cons n nodes)
  then show ?case
    by (auto simp: Let_def split: if_splits option.splits list.splits)
qed

lemma lane_pass_stable:
  "lane_pass lane_override edges nodes lane False = Inr (lane', False) \<Longrightarrow>
   lane' = lane \<and>
   (\<forall>n\<in>set nodes. map_of lane_override n = None \<longrightarrow> preds edges n \<noteq> [] \<longrightarrow>
      (\<exists>l ls lane_n. lanes_of lane (preds edges n) = Some (l # ls) \<and> lane n = Some lane_n \<and>
         fold max ls l < lane_n))"
proof (induction nodes)
  case Nil
  then show ?case by simp
next
  case (Cons n nodes)
  show ?case
  proof (cases "map_of lane_override n \<noteq> None \<or> preds edges n = []")
    case True
    with Cons.prems have "lane_pass lane_override edges nodes lane False = Inr (lane', False)"
      by (auto split: if_splits)
    with Cons.IH True show ?thesis by auto
  next
    case False
    with Cons.prems obtain l ls lane_n where
      L: "lanes_of lane (preds edges n) = Some (l # ls)" and N: "lane n = Some lane_n"
      by (auto simp: Let_def split: option.splits list.splits)
    have gt: "\<not> lane_n \<le> fold max ls l"
    proof
      assume "lane_n \<le> fold max ls l"
      with Cons.prems False L N have
        "lane_pass lane_override edges nodes (lane(n \<mapsto> fold max ls l + 1)) True = Inr (lane', False)"
        by (simp add: Let_def)
      then show False using lane_pass_changed by blast
    qed
    with Cons.prems False L N have
      "lane_pass lane_override edges nodes lane False = Inr (lane', False)"
      by (simp add: Let_def)
    with Cons.IH L N gt show ?thesis by auto
  qed
qed

lemma lanes_of_member:
  "lanes_of lane ps = Some ls \<Longrightarrow> p \<in> set ps \<Longrightarrow> \<exists>lp. lane p = Some lp \<and> lp \<in> set ls"
  by (induction ps arbitrary: ls) (auto split: option.splits)

lemma le_fold_max: "(x::int) \<in> set (l # ls) \<Longrightarrow> x \<le> fold max ls l"
proof -
  assume "x \<in> set (l # ls)"
  then have "x \<le> Max (set (l # ls))" by (intro Max_ge) simp_all
  then show ?thesis by (simp only: Max.set_eq_fold)
qed


lemma lanes_of_map: "lanes_of lane ps = Some ls \<Longrightarrow> map Some ls = map lane ps"
  by (induction ps arbitrary: ls) (auto split: option.splits)

lemma lanes_of_defined:
  "set ps \<subseteq> dom lane \<Longrightarrow> \<exists>ls. lanes_of lane ps = Some ls \<and> length ls = length ps"
  by (induction ps) auto

lemma preds_iff: "u \<in> set (preds edges v) \<longleftrightarrow> (u, v) \<in> set edges"
  by (force simp: preds_def)

lemma fold_max_less: "fold max ls l < (x::int) \<longleftrightarrow> (\<forall>y\<in>set (l # ls). y < x)"
proof -
  have "fold max ls l = Max (set (l # ls))" by (rule Max.set_eq_fold [symmetric])
  then show ?thesis by (simp only: Max_less_iff [OF finite_set, of "l # ls"]) auto
qed

lemma lane_pass_progress:
  assumes inc: "\<forall>(u, v)\<in>set edges. map_of lane_override v = None \<longrightarrow> rank v \<le> K \<longrightarrow>
                  rank u < (rank v :: nat)"
    and jK: "j \<le> K"
  shows "(\<forall>(u, v)\<in>set edges. u \<in> dom lane) \<Longrightarrow> set ns \<subseteq> dom lane \<Longrightarrow>
     settled lane_override edges lane B \<Longrightarrow> {x. rank x < j} \<subseteq> B \<Longrightarrow> B \<subseteq> {x. rank x \<le> j} \<Longrightarrow>
     \<exists>lane' c'. lane_pass lane_override edges ns lane c = Inr (lane', c') \<and> dom lane' = dom lane \<and>
        settled lane_override edges lane' (B \<union> {n \<in> set ns. rank n \<le> j})"
proof (induction ns arbitrary: lane B c)
  case Nil
  then show ?case by simp
next
  case (Cons n ns)
  let ?B1 = "if rank n \<le> j then insert n B else B"
  have n_dom: "n \<in> dom lane" using Cons.prems(2) by simp
  have sets: "?B1 \<union> {m \<in> set ns. rank m \<le> j} = B \<union> {m \<in> set (n # ns). rank m \<le> j}"
    by auto
  have low1: "{x. rank x < j} \<subseteq> ?B1" and up1: "?B1 \<subseteq> {x. rank x \<le> j}"
    using Cons.prems(4,5) by auto
  \<comment> \<open>the step on \<open>n\<close>: the lanes after it, and the flag\<close>
  have step: "\<exists>lane1 c1. lane_pass lane_override edges (n # ns) lane c =
                 lane_pass lane_override edges ns lane1 c1 \<and> dom lane1 = dom lane \<and>
                 settled lane_override edges lane1 ?B1"
  proof (cases "map_of lane_override n \<noteq> None \<or> preds edges n = []")
    case True
    have "settled lane_override edges lane ?B1"
      unfolding settled_def
    proof (intro ballI, clarify)
      fix u v assume e: "(u, v) \<in> set edges" and v: "v \<in> ?B1"
        and ov: "map_of lane_override v = None"
      have "v \<noteq> n" using True e ov preds_iff [of u edges v] by auto
      with v have "v \<in> B" by (auto split: if_splits)
      with Cons.prems(3) e ov show "\<exists>lu lv. lane u = Some lu \<and> lane v = Some lv \<and> lu < lv"
        by (fastforce simp: settled_def)
    qed
    moreover have "lane_pass lane_override edges (n # ns) lane c =
                     lane_pass lane_override edges ns lane c"
      using True by auto
    ultimately show ?thesis by blast
  next
    case False
    then have ov_n: "map_of lane_override n = None" and ps: "preds edges n \<noteq> []" by auto
    have "set (preds edges n) \<subseteq> dom lane"
      using Cons.prems(1) preds_iff [of _ edges n] by fastforce
    from lanes_of_defined [OF this] ps obtain l ls where
      L: "lanes_of lane (preds edges n) = Some (l # ls)"
      by (cases "preds edges n") (auto simp: length_Suc_conv)
    from n_dom obtain lane_n where N: "lane n = Some lane_n" by auto
    let ?m = "fold max ls l"
    have pred_le: "\<exists>lu. lane u = Some lu \<and> lu \<le> ?m" if "(u, n) \<in> set edges" for u
    proof -
      from that have "u \<in> set (preds edges n)" by (simp add: preds_iff)
      from lanes_of_member [OF L this] obtain lu where "lane u = Some lu" "lu \<in> set (l # ls)"
        by blast
      then show ?thesis using le_fold_max by blast
    qed
    have pred_ne: "u \<noteq> n" if "(u, n) \<in> set edges" "rank n \<le> j" for u
      using inc that ov_n jK by fastforce
    show ?thesis
    proof (cases "lane_n \<le> ?m")
      case up: True
      let ?lane1 = "lane(n \<mapsto> ?m + 1)"
      have eq: "lane_pass lane_override edges (n # ns) lane c =
                  lane_pass lane_override edges ns ?lane1 True"
        using ov_n ps L N up by (simp add: Let_def)
      have n_notin: "n \<notin> B"
      proof
        assume nB: "n \<in> B"
        have "\<forall>y\<in>set (l # ls). y < lane_n"
        proof
          fix y assume "y \<in> set (l # ls)"
          then have "Some y \<in> set (map lane (preds edges n))"
            using lanes_of_map [OF L] by (metis image_eqI set_map)
          then obtain u where u: "u \<in> set (preds edges n)" "lane u = Some y" by auto
          then have "(u, n) \<in> set edges" by (simp add: preds_iff)
          with Cons.prems(3) nB ov_n u(2) N show "y < lane_n"
            by (fastforce simp: settled_def)
        qed
        then have "?m < lane_n" by (simp only: fold_max_less)
        with up show False by simp
      qed
      have "settled lane_override edges ?lane1 ?B1"
        unfolding settled_def
      proof (intro ballI, clarify)
        fix u v assume e: "(u, v) \<in> set edges" and v: "v \<in> ?B1"
          and ov: "map_of lane_override v = None"
        show "\<exists>lu lv. ?lane1 u = Some lu \<and> ?lane1 v = Some lv \<and> lu < lv"
        proof (cases "v = n")
          case True
          with v n_notin have "rank n \<le> j" by (auto split: if_splits)
          with True e pred_le [of u] pred_ne [of u] obtain lu where
            "lane u = Some lu" "lu \<le> ?m" "u \<noteq> n"
            by blast
          with True show ?thesis by simp
        next
          case False
          with v have vB: "v \<in> B" by (auto split: if_splits)
          have "u \<noteq> n"
          proof
            assume "u = n"
            have rv: "rank v \<le> j" using vB Cons.prems(5) by auto
            with inc e ov jK \<open>u = n\<close> have "rank n < rank v" by fastforce
            with rv have "n \<in> B" using Cons.prems(4) by auto
            with n_notin show False by simp
          qed
          moreover from Cons.prems(3) e vB ov obtain lu lv where
            "lane u = Some lu" "lane v = Some lv" "lu < lv"
            by (fastforce simp: settled_def)
          ultimately show ?thesis using False by simp
        qed
      qed
      moreover have "dom ?lane1 = dom lane" using n_dom by auto
      ultimately show ?thesis using eq by blast
    next
      case down: False
      have eq: "lane_pass lane_override edges (n # ns) lane c =
                  lane_pass lane_override edges ns lane c"
        using ov_n ps L N down by (simp add: Let_def)
      have "settled lane_override edges lane ?B1"
        unfolding settled_def
      proof (intro ballI, clarify)
        fix u v assume e: "(u, v) \<in> set edges" and v: "v \<in> ?B1"
          and ov: "map_of lane_override v = None"
        show "\<exists>lu lv. lane u = Some lu \<and> lane v = Some lv \<and> lu < lv"
        proof (cases "v = n")
          case True
          with e pred_le [of u] obtain lu where "lane u = Some lu" "lu \<le> ?m" by blast
          with True N down show ?thesis by simp
        next
          case False
          with v have "v \<in> B" by (auto split: if_splits)
          with Cons.prems(3) e ov show ?thesis by (fastforce simp: settled_def)
        qed
      qed
      with eq show ?thesis by blast
    qed
  qed
  then obtain lane1 c1 where
    eq: "lane_pass lane_override edges (n # ns) lane c = lane_pass lane_override edges ns lane1 c1"
    and d1: "dom lane1 = dom lane" and s1: "settled lane_override edges lane1 ?B1"
    by blast
  have "\<exists>lane' c'. lane_pass lane_override edges ns lane1 c1 = Inr (lane', c') \<and>
          dom lane' = dom lane1 \<and>
          settled lane_override edges lane' (?B1 \<union> {m \<in> set ns. rank m \<le> j})"
    using Cons.prems(1,2) d1 s1 low1 up1 by (intro Cons.IH) auto
  then show ?case unfolding eq sets d1 .
qed




lemma lane_pass_final:
  assumes inc: "\<forall>(u, v)\<in>set edges. map_of lane_override v = None \<longrightarrow> rank v \<le> K \<longrightarrow>
                  rank u < (rank v :: nat)"
    and jK: "j \<le> K + 1"
  shows "(\<forall>(u, v)\<in>set edges. u \<in> dom lane) \<Longrightarrow> set ns \<subseteq> dom lane \<Longrightarrow>
     settled lane_override edges lane {x. rank x < j} \<Longrightarrow>
     raised lane_override edges lane {x. rank x < j} D \<Longrightarrow>
     \<exists>lane' c'. lane_pass lane_override edges ns lane c = Inr (lane', c') \<and>
        raised lane_override edges lane' {x. rank x < j} (D \<union> set ns)"
proof (induction ns arbitrary: lane D c)
  case Nil
  then show ?case by simp
next
  case (Cons n ns)
  let ?B = "{x. rank x < j}"
  have n_dom: "n \<in> dom lane" using Cons.prems(2) by simp
  have step: "\<exists>lane1 c1. lane_pass lane_override edges (n # ns) lane c =
                 lane_pass lane_override edges ns lane1 c1 \<and> dom lane1 = dom lane \<and>
                 settled lane_override edges lane1 ?B \<and>
                 raised lane_override edges lane1 ?B (insert n D)"
  proof (cases "map_of lane_override n \<noteq> None \<or> preds edges n = []")
    case True
    have "raised lane_override edges lane ?B (insert n D)"
      unfolding raised_def
    proof (intro ballI, clarify)
      fix u v assume e: "(u, v) \<in> set edges" and u: "rank u < j" and v: "v \<in> insert n D"
        and ov: "map_of lane_override v = None"
      have "v \<noteq> n" using True e ov preds_iff [of u edges v] by auto
      with v have "v \<in> D" by auto
      with Cons.prems(4) e u ov show "\<exists>lu lv. lane u = Some lu \<and> lane v = Some lv \<and> lu < lv"
        by (fastforce simp: raised_def)
    qed
    moreover have "lane_pass lane_override edges (n # ns) lane c =
                     lane_pass lane_override edges ns lane c"
      using True by auto
    ultimately show ?thesis using Cons.prems(3) by blast
  next
    case False
    then have ov_n: "map_of lane_override n = None" and ps: "preds edges n \<noteq> []" by auto
    have "set (preds edges n) \<subseteq> dom lane"
      using Cons.prems(1) preds_iff [of _ edges n] by fastforce
    from lanes_of_defined [OF this] ps obtain l ls where
      L: "lanes_of lane (preds edges n) = Some (l # ls)"
      by (cases "preds edges n") (auto simp: length_Suc_conv)
    from n_dom obtain lane_n where N: "lane n = Some lane_n" by auto
    let ?m = "fold max ls l"
    have pred_le: "\<exists>lu. lane u = Some lu \<and> lu \<le> ?m" if "(u, n) \<in> set edges" for u
    proof -
      from that have "u \<in> set (preds edges n)" by (simp add: preds_iff)
      from lanes_of_member [OF L this] obtain lu where "lane u = Some lu" "lu \<in> set (l # ls)"
        by blast
      then show ?thesis using le_fold_max by blast
    qed
    show ?thesis
    proof (cases "lane_n \<le> ?m")
      case up: True
      let ?lane1 = "lane(n \<mapsto> ?m + 1)"
      have eq: "lane_pass lane_override edges (n # ns) lane c =
                  lane_pass lane_override edges ns ?lane1 True"
        using ov_n ps L N up by (simp add: Let_def)
      have n_notin: "\<not> rank n < j"
      proof
        assume nB: "rank n < j"
        have "\<forall>y\<in>set (l # ls). y < lane_n"
        proof
          fix y assume "y \<in> set (l # ls)"
          then have "Some y \<in> set (map lane (preds edges n))"
            using lanes_of_map [OF L] by (metis image_eqI set_map)
          then obtain u where u: "u \<in> set (preds edges n)" "lane u = Some y" by auto
          then have "(u, n) \<in> set edges" by (simp add: preds_iff)
          with Cons.prems(3) nB ov_n u(2) N show "y < lane_n"
            by (fastforce simp: settled_def)
        qed
        then have "?m < lane_n" by (simp only: fold_max_less)
        with up show False by simp
      qed
      have src_ne: "u \<noteq> n" if "rank u < j" for u
        using that n_notin by auto
      have s1: "settled lane_override edges ?lane1 ?B"
        unfolding settled_def
      proof (intro ballI, clarify)
        fix u v assume e: "(u, v) \<in> set edges" and v: "rank v < j"
          and ov: "map_of lane_override v = None"
        have "rank v \<le> K" using v jK by simp
        with inc e ov have "rank u < rank v" by fastforce
        with v have "rank u < j" by simp
        then have "u \<noteq> n" by (rule src_ne)
        moreover have "v \<noteq> n" using v n_notin by auto
        moreover from Cons.prems(3) e v ov obtain lu lv where
          "lane u = Some lu" "lane v = Some lv" "lu < lv"
          by (fastforce simp: settled_def)
        ultimately show "\<exists>lu lv. ?lane1 u = Some lu \<and> ?lane1 v = Some lv \<and> lu < lv" by simp
      qed
      have r1: "raised lane_override edges ?lane1 ?B (insert n D)"
        unfolding raised_def
      proof (intro ballI, clarify)
        fix u v assume e: "(u, v) \<in> set edges" and u: "rank u < j" and v: "v \<in> insert n D"
          and ov: "map_of lane_override v = None"
        have un: "u \<noteq> n" using u by (rule src_ne)
        show "\<exists>lu lv. ?lane1 u = Some lu \<and> ?lane1 v = Some lv \<and> lu < lv"
        proof (cases "v = n")
          case True
          with e pred_le [of u] obtain lu where "lane u = Some lu" "lu \<le> ?m" by blast
          with True un show ?thesis by simp
        next
          case False
          with v have "v \<in> D" by simp
          with Cons.prems(4) e u ov obtain lu lv where
            "lane u = Some lu" "lane v = Some lv" "lu < lv"
            by (fastforce simp: raised_def)
          with un False show ?thesis by simp
        qed
      qed
      have "dom ?lane1 = dom lane" using n_dom by auto
      with eq s1 r1 show ?thesis by blast
    next
      case down: False
      have eq: "lane_pass lane_override edges (n # ns) lane c =
                  lane_pass lane_override edges ns lane c"
        using ov_n ps L N down by (simp add: Let_def)
      have "raised lane_override edges lane ?B (insert n D)"
        unfolding raised_def
      proof (intro ballI, clarify)
        fix u v assume e: "(u, v) \<in> set edges" and u: "rank u < j" and v: "v \<in> insert n D"
          and ov: "map_of lane_override v = None"
        show "\<exists>lu lv. lane u = Some lu \<and> lane v = Some lv \<and> lu < lv"
        proof (cases "v = n")
          case True
          with e pred_le [of u] obtain lu where "lane u = Some lu" "lu \<le> ?m" by blast
          with True N down show ?thesis by simp
        next
          case False
          with v have "v \<in> D" by simp
          with Cons.prems(4) e u ov show ?thesis by (fastforce simp: raised_def)
        qed
      qed
      with eq Cons.prems(3) show ?thesis by blast
    qed
  qed
  then obtain lane1 c1 where
    eq: "lane_pass lane_override edges (n # ns) lane c = lane_pass lane_override edges ns lane1 c1"
    and d1: "dom lane1 = dom lane" and s1: "settled lane_override edges lane1 ?B"
    and r1: "raised lane_override edges lane1 ?B (insert n D)"
    by blast
  have "\<exists>lane' c'. lane_pass lane_override edges ns lane1 c1 = Inr (lane', c') \<and>
          raised lane_override edges lane' ?B (insert n D \<union> set ns)"
    using Cons.prems(1,2) d1 s1 r1 by (intro Cons.IH) auto
  then show ?case unfolding eq by simp
qed

lemma stable_pass_settled:
  assumes P: "lane_pass lane_override edges nodes lane False = Inr (lane', False)"
    and tgt: "\<forall>(u, v)\<in>set edges. v \<in> set nodes"
  shows "settled lane_override edges lane' B"
  unfolding settled_def
proof (intro ballI, clarify)
  fix u v assume e: "(u, v) \<in> set edges" and ov: "map_of lane_override v = None"
  note S = lane_pass_stable [OF P]
  have v: "v \<in> set nodes" using tgt e by auto
  have u: "u \<in> set (preds edges v)" using e by (simp add: preds_iff)
  then have "preds edges v \<noteq> []" by auto
  with S v ov obtain l ls lv where
    L: "lanes_of lane (preds edges v) = Some (l # ls)" and V: "lane v = Some lv"
    and gt: "fold max ls l < lv"
    by blast
  from lanes_of_member [OF L u] obtain lu where U: "lane u = Some lu" and "lu \<in> set (l # ls)"
    by blast
  then have "lu \<le> fold max ls l" using le_fold_max by blast
  with gt U V S show "\<exists>lu lv. lane' u = Some lu \<and> lane' v = Some lv \<and> lu < lv" by auto
qed

lemma lane_passes_progress:
  assumes inc: "\<forall>(u, v)\<in>set edges. map_of lane_override v = None \<longrightarrow> rank v \<le> K \<longrightarrow>
                  rank u < (rank v :: nat)"
    and ends: "\<forall>(u, v)\<in>set edges. u \<in> set nodes \<and> v \<in> set nodes"
  shows "dom lane = set nodes \<Longrightarrow> settled lane_override edges lane {x. rank x < j} \<Longrightarrow>
     j + k \<le> K + 1 \<Longrightarrow>
     \<exists>lane_f. lane_passes (Suc k) lane_override edges nodes lane = Inr lane_f \<and>
        raised lane_override edges lane_f {x. rank x < j + k} UNIV"
proof (induction k arbitrary: lane j)
  case 0
  have src: "\<forall>(u, v)\<in>set edges. u \<in> dom lane" using ends "0.prems"(1) by auto
  have "raised lane_override edges lane {x. rank x < j} {}" by (simp add: raised_def)
  with src "0.prems" have
    "\<exists>lane' c'. lane_pass lane_override edges nodes lane False = Inr (lane', c') \<and>
        raised lane_override edges lane' {x. rank x < j} ({} \<union> set nodes)"
    by (intro lane_pass_final [OF inc]) auto
  then obtain lane' c' where
    P: "lane_pass lane_override edges nodes lane False = Inr (lane', c')"
    and r: "raised lane_override edges lane' {x. rank x < j} (set nodes)"
    by auto
  have "raised lane_override edges lane' {x. rank x < j} UNIV"
    using r ends by (fastforce simp: raised_def)
  with P show ?case by simp
next
  case (Suc k)
  have jK: "j \<le> K" using Suc.prems(3) by simp
  have src: "\<forall>(u, v)\<in>set edges. u \<in> dom lane" using ends Suc.prems(1) by auto
  have "\<exists>lane' c'. lane_pass lane_override edges nodes lane False = Inr (lane', c') \<and>
          dom lane' = dom lane \<and>
          settled lane_override edges lane' ({x. rank x < j} \<union> {n \<in> set nodes. rank n \<le> j})"
    using src Suc.prems(1,2) by (intro lane_pass_progress [OF inc jK]) auto
  then obtain lane' c' where
    P: "lane_pass lane_override edges nodes lane False = Inr (lane', c')"
    and d: "dom lane' = set nodes"
    and s: "settled lane_override edges lane' ({x. rank x < j} \<union> {n \<in> set nodes. rank n \<le> j})"
    using Suc.prems(1) by auto
  have s1: "settled lane_override edges lane' {x. rank x < j + 1}"
    unfolding settled_def
  proof (intro ballI, clarify)
    fix u v assume e: "(u, v) \<in> set edges" and v: "rank v < j + 1"
      and ov: "map_of lane_override v = None"
    have "v \<in> set nodes" using ends e by auto
    with v have "v \<in> {x. rank x < j} \<union> {n \<in> set nodes. rank n \<le> j}" by auto
    with s e ov show "\<exists>lu lv. lane' u = Some lu \<and> lane' v = Some lv \<and> lu < lv"
      by (fastforce simp: settled_def)
  qed
  show ?case
  proof (cases c')
    case False
    have "settled lane_override edges lane' UNIV"
      using P False ends by (intro stable_pass_settled [of _ _ nodes lane]) auto
    then have "raised lane_override edges lane' {x. rank x < j + Suc k} UNIV"
      by (fastforce simp: settled_def raised_def)
    with P False show ?thesis by simp
  next
    case True
    have "j + 1 + k \<le> K + 1" using Suc.prems(3) by simp
    from Suc.IH [OF d s1 this] obtain lane_f where
      "lane_passes (Suc k) lane_override edges nodes lane' = Inr lane_f"
      "raised lane_override edges lane_f {x. rank x < j + 1 + k} UNIV"
      by blast
    with P True show ?thesis by (simp add: add.commute add.left_commute)
  qed
qed

lemma initial_lanes_dom: "dom (initial_lanes nodes lane_override) = set nodes"
  by (force simp: initial_lanes_def dom_map_of_conv_image_fst)

text \<open>
  C3, as the code has it. Give every node a rank, a natural number, so that every edge into
  a node that has no lane override and a rank of at most 11 comes from a node of lower rank;
  the length of the longest path of edges into nodes without override that ends at the node,
  capped at 12, is such a rank, and a node on a cycle of such edges, or reached from one,
  has rank 12. If the edges join nodes of the graph, \<open>_auto_lanes\<close> returns, and on the
  lanes it returns every edge \<open>(u, v)\<close> whose target \<open>v\<close> has no override and whose
  source \<open>u\<close> has a rank of at most 11 has \<open>lane (v) > lane (u)\<close>, whatever the order
  of the nodes and whatever the rest of the graph: pass \<open>k\<close> settles the nodes of rank
  below \<open>k\<close>, and the last pass that runs raises every target of an edge from such a node.
\<close>

theorem ranked_lanes_increase:
  "(\<forall>(a, b)\<in>set edges. a \<in> set nodes \<and> b \<in> set nodes \<and>
        (map_of lane_override b = None \<and> rank b \<le> (11::nat) \<longrightarrow> rank a < rank b)) \<longrightarrow>
     (\<exists>lane. auto_lanes nodes edges lane_override = Inr lane \<and>
        (\<forall>(u, v)\<in>set edges. map_of lane_override v = None \<and> rank u \<le> 11 \<longrightarrow>
           (\<exists>lu lv. lane u = Some lu \<and> lane v = Some lv \<and> lu < lv)))"
proof (intro impI)
  assume h: "\<forall>(a, b)\<in>set edges. a \<in> set nodes \<and> b \<in> set nodes \<and>
        (map_of lane_override b = None \<and> rank b \<le> (11::nat) \<longrightarrow> rank a < rank b)"
  then have inc: "\<forall>(u, v)\<in>set edges. map_of lane_override v = None \<longrightarrow> rank v \<le> 11 \<longrightarrow>
                    rank u < rank v"
    and ends: "\<forall>(u, v)\<in>set edges. u \<in> set nodes \<and> v \<in> set nodes"
    by auto
  let ?lane0 = "initial_lanes nodes lane_override"
  have s0: "settled lane_override edges ?lane0 {x. rank x < 1}"
    using inc by (fastforce simp: settled_def)
  have "1 + 11 \<le> (11::nat) + 1" by simp
  from lane_passes_progress [OF inc ends initial_lanes_dom s0 this] obtain lane where
    L: "lane_passes (Suc 11) lane_override edges nodes ?lane0 = Inr lane"
    and R: "raised lane_override edges lane {x. rank x < 1 + 11} UNIV"
    by blast
  have "\<not> list_ex (\<lambda>e. snd e \<notin> set nodes) edges"
    using ends by (auto simp: list_ex_iff)
  with L have A: "auto_lanes nodes edges lane_override = Inr lane" by (simp add: auto_lanes_def)
  have "\<forall>(u, v)\<in>set edges. map_of lane_override v = None \<and> rank u \<le> 11 \<longrightarrow>
           (\<exists>lu lv. lane u = Some lu \<and> lane v = Some lv \<and> lu < lv)"
    using R by (fastforce simp: raised_def)
  with A show "\<exists>lane. auto_lanes nodes edges lane_override = Inr lane \<and>
        (\<forall>(u, v)\<in>set edges. map_of lane_override v = None \<and> rank u \<le> 11 \<longrightarrow>
           (\<exists>lu lv. lane u = Some lu \<and> lane v = Some lv \<and> lu < lv))"
    by blast
qed

text \<open>
  C3 on the nodes 4, 3, 2, 1, 0 with the edges 0 to 1, 1 to 2, 2 to 3, 3 to 4 and 4 to 3,
  where node 0 has the override 1: the nodes 3 and 4 form a cycle and have rank 12, the rank
  of the nodes 0, 1 and 2 is their number. The edges from 0, 1 and 2 go to a higher lane,
  the edge from 2 into the cycle among them.
\<close>

theorem ranked_lanes_increase_witness:
  "\<exists>lane. auto_lanes [4, 3, 2, 1, 0 :: int] [(0, 1), (1, 2), (2, 3), (3, 4), (4, 3)] [(0, 1)]
       = Inr lane \<and>
     (\<exists>lu lv. lane 0 = Some lu \<and> lane 1 = Some lv \<and> lu < lv) \<and>
     (\<exists>lu lv. lane 1 = Some lu \<and> lane 2 = Some lv \<and> lu < lv) \<and>
     (\<exists>lu lv. lane 2 = Some lu \<and> lane 3 = Some lv \<and> lu < lv)"
proof -
  have "\<exists>lane. auto_lanes [4, 3, 2, 1, 0 :: int] [(0, 1), (1, 2), (2, 3), (3, 4), (4, 3)] [(0, 1)]
          = Inr lane \<and>
        (\<forall>(u, v)\<in>set [(0, 1), (1, 2), (2, 3), (3, 4), (4, 3 :: int)].
           map_of [(0 :: int, 1 :: int)] v = None \<and> (if 3 \<le> u then 12 else nat u) \<le> 11 \<longrightarrow>
           (\<exists>lu lv. lane u = Some lu \<and> lane v = Some lv \<and> lu < lv))"
    using ranked_lanes_increase
      [where nodes = "[4, 3, 2, 1, 0 :: int]"
         and edges = "[(0, 1), (1, 2), (2, 3), (3, 4), (4, 3)]"
         and lane_override = "[(0, 1)]" and rank = "\<lambda>n. if 3 \<le> n then 12 else nat n"]
    by simp
  then show ?thesis by auto
qed

lemma increasing_edges_reach:
  assumes inc: "\<forall>(a, b)\<in>set edges. a < (b::int)"
  shows "(x, y) \<in> (set edges)\<^sup>* \<Longrightarrow> x \<le> y"
proof (induction rule: rtrancl_induct)
  case base
  show ?case by simp
next
  case (step y z)
  with inc show ?case by force
qed

lemma sink_reaches_itself:
  assumes "\<forall>(a, b)\<in>set edges. a \<noteq> x"
  shows "(x, y) \<in> (set edges)\<^sup>* \<Longrightarrow> y = x"
proof (induction rule: rtrancl_induct)
  case base
  show ?case by simp
next
  case (step y z)
  with assms show ?case by fastforce
qed

text \<open>
  C3 as stated fails, in two ways. On the chain 0, 1, ..., 13, its nodes listed from 13
  down to 0, every pass moves each node one lane only, and after the twelve passes the nodes
  12 and 13 are both in lane 12: the edge from 12 to 13 has no override and lies on no
  cycle. And on the nodes 2, 0, 1 with the cycle between 0 and 1 and the edge from 1 to 2,
  node 2 is visited before node 1 in every pass, which then moves on: after the twelve
  passes node 1 is in lane 24 and node 2 in lane 23, and the edge from 1 to 2 has no
  override and lies on no cycle, since no edge leaves node 2.
\<close>

theorem capped_lanes_not_increasing:
  "(case auto_lanes [13, 12, 11, 10, 9, 8, 7, 6, 5, 4, 3, 2, 1, 0 :: int]
          [(0, 1), (1, 2), (2, 3), (3, 4), (4, 5), (5, 6), (6, 7), (7, 8), (8, 9), (9, 10),
           (10, 11), (11, 12), (12, 13)] [] of
      Inl e \<Rightarrow> False
    | Inr lane \<Rightarrow> lane 12 = Some 12 \<and> lane 13 = Some 12)
   \<and> \<not> on_cycle [(0, 1), (1, 2), (2, 3), (3, 4), (4, 5), (5, 6), (6, 7), (7, 8), (8, 9), (9, 10),
           (10, 11), (11, 12), (12, 13 :: int)] 12 13
   \<and> (case auto_lanes [2, 0, 1 :: int] [(0, 1), (1, 0), (1, 2)] [] of
      Inl e \<Rightarrow> False
    | Inr lane \<Rightarrow> lane 1 = Some 24 \<and> lane 2 = Some 23)
   \<and> \<not> on_cycle [(0, 1), (1, 0), (1, 2 :: int)] 1 2"
proof (intro conjI)
  show "case auto_lanes [13, 12, 11, 10, 9, 8, 7, 6, 5, 4, 3, 2, 1, 0 :: int]
          [(0, 1), (1, 2), (2, 3), (3, 4), (4, 5), (5, 6), (6, 7), (7, 8), (8, 9), (9, 10),
           (10, 11), (11, 12), (12, 13)] [] of
      Inl e \<Rightarrow> False
    | Inr lane \<Rightarrow> lane 12 = Some 12 \<and> lane 13 = Some 12"
    by (simp add: auto_lanes_def initial_lanes_def preds_def numeral_eq_Suc)
  let ?E = "[(0, 1), (1, 2), (2, 3), (3, 4), (4, 5), (5, 6), (6, 7), (7, 8), (8, 9), (9, 10),
           (10, 11), (11, 12), (12, 13 :: int)]"
  have "(13, 12) \<notin> (set ?E)\<^sup>*"
  proof
    assume "(13, 12) \<in> (set ?E)\<^sup>*"
    then have "(13::int) \<le> 12" by (rule increasing_edges_reach [rotated]) simp
    then show False by simp
  qed
  then show "\<not> on_cycle ?E 12 13" by (simp add: on_cycle_def)
  show "case auto_lanes [2, 0, 1 :: int] [(0, 1), (1, 0), (1, 2)] [] of
      Inl e \<Rightarrow> False
    | Inr lane \<Rightarrow> lane 1 = Some 24 \<and> lane 2 = Some 23"
    by (simp add: auto_lanes_def initial_lanes_def preds_def numeral_eq_Suc)
  let ?F = "[(0, 1), (1, 0), (1, 2 :: int)]"
  have "(2, 1) \<notin> (set ?F)\<^sup>*"
  proof
    assume "(2, 1) \<in> (set ?F)\<^sup>*"
    then have "(1::int) = 2" by (rule sink_reaches_itself [rotated]) simp
    then show False by simp
  qed
  then show "\<not> on_cycle ?F 1 2" by (simp add: on_cycle_def)
qed

section \<open>Radial partition: proofs\<close>

lemma erase_inner_set_inner: "erase_inner (set_inner ch r) = erase_inner ch"
  by (cases ch) simp

lemma node_inner_set_inner: "node_inner (set_inner ch r) = Some r"
  by (cases ch) simp

lemma layout_frame:
  "(layout_node n start span_rad depth ring_thick gap_rad max_depth slices = Inr (n', sl) \<longrightarrow>
      erase_inner n' = erase_inner n \<and> node_inner n' = node_inner n)"
  "(layout_children chs a span_rad' total_v outer depth' ring_thick' gap_rad' max_depth' slices'
      = Inr (chs', sl') \<longrightarrow>
      map erase_inner chs' = map erase_inner chs \<and> (\<forall>c\<in>set chs'. node_inner c = Some outer))"
proof (induction n start span_rad depth ring_thick gap_rad max_depth slices
         and chs a span_rad' total_v outer depth' ring_thick' gap_rad' max_depth' slices'
       arbitrary: n' sl and chs' sl'
       rule: layout_node_layout_children.induct)
  case (1 lbl v inn chs start span_rad depth ring_thick gap_rad max_depth slices)
  let ?cut = "case max_depth of None \<Rightarrow> False | Some md \<Rightarrow> md < depth"
  show ?case
  proof (intro impI)
    assume R: "layout_node (Node lbl v inn chs) start span_rad depth ring_thick gap_rad
                 max_depth slices = Inr (n', sl)"
    show "erase_inner n' = erase_inner (Node lbl v inn chs) \<and>
          node_inner n' = node_inner (Node lbl v inn chs)"
    proof (cases ?cut)
      case True
      with R have "n' = Node lbl v inn chs" by simp
      then show ?thesis by simp
    next
      case False
      then obtain inner where inn: "inn = Some inner"
        using R by (cases inn) simp_all
      show ?thesis
      proof (cases "chs = []")
        case True
        with R False inn have "n' = Node lbl v inn chs" by (simp add: Let_def)
        then show ?thesis by simp
      next
        case ne: False
        note IH = "1.IH" [OF False inn refl refl refl refl ne refl]
        from R False inn ne obtain chs' where
          C: "layout_children chs start span_rad (sum_list (map node_value chs))
                (inner + ring_thick) depth ring_thick gap_rad max_depth
                (slices @ [(inner, inner + ring_thick, start + gap_rad / 2,
                            start + span_rad - gap_rad / 2, lbl, depth, v)]) = Inr (chs', sl)"
          and n': "n' = Node lbl v inn chs'"
          by (auto simp: Let_def split: sum.splits)
        from IH C have "map erase_inner chs' = map erase_inner chs" by blast
        with n' show ?thesis by simp
      qed
    qed
  qed
next
  case (2 a span_rad total_v outer depth ring_thick gap_rad max_depth slices)
  show ?case by auto
next
  case (3 ch rest a span_rad total_v outer depth ring_thick gap_rad max_depth slices)
  let ?frac = "if 0 < total_v then node_value ch / total_v else 0"
  show ?case
  proof (intro impI)
    assume R: "layout_children (ch # rest) a span_rad total_v outer depth ring_thick gap_rad
                 max_depth slices = Inr (chs', sl')"
    then obtain ch' s1 rest' where
      A: "layout_node (set_inner ch outer) a (span_rad * ?frac) (depth + 1) ring_thick gap_rad
            max_depth slices = Inr (ch', s1)"
      and B: "layout_children rest (a + span_rad * ?frac) span_rad total_v outer depth ring_thick
            gap_rad max_depth s1 = Inr (rest', sl')"
      and c: "chs' = ch' # rest'"
      by (auto simp: Let_def split: sum.splits)
    from "3.IH"(1) [OF refl] A
    have "erase_inner ch' = erase_inner (set_inner ch outer) \<and>
          node_inner ch' = node_inner (set_inner ch outer)" by blast
    moreover from "3.IH"(2) [OF refl A refl] B
    have "map erase_inner rest' = map erase_inner rest \<and>
          (\<forall>c\<in>set rest'. node_inner c = Some outer)" by blast
    ultimately show "map erase_inner chs' = map erase_inner (ch # rest) \<and>
          (\<forall>c\<in>set chs'. node_inner c = Some outer)"
      using c by (simp add: erase_inner_set_inner node_inner_set_inner)
  qed
qed


lemma layout_total:
  "(node_inner n \<noteq> None \<longrightarrow>
      (\<exists>n' sl. layout_node n start span_rad depth ring_thick gap_rad max_depth slices = Inr (n', sl)))"
  "(\<exists>chs' sl'. layout_children chs a span_rad' total_v outer depth' ring_thick' gap_rad' max_depth'
      slices' = Inr (chs', sl'))"
proof (induction n start span_rad depth ring_thick gap_rad max_depth slices
         and chs a span_rad' total_v outer depth' ring_thick' gap_rad' max_depth' slices'
       rule: layout_node_layout_children.induct)
  case (1 lbl v inn chs start span_rad depth ring_thick gap_rad max_depth slices)
  let ?cut = "case max_depth of None \<Rightarrow> False | Some md \<Rightarrow> md < depth"
  show ?case
  proof (intro impI)
    assume "node_inner (Node lbl v inn chs) \<noteq> None"
    then obtain inner where inn: "inn = Some inner" by auto
    show "\<exists>n' sl. layout_node (Node lbl v inn chs) start span_rad depth ring_thick gap_rad
            max_depth slices = Inr (n', sl)"
    proof (cases ?cut)
      case True
      then show ?thesis by simp
    next
      case False
      show ?thesis
      proof (cases "chs = []")
        case True
        with False inn show ?thesis by (simp add: Let_def)
      next
        case ne: False
        from "1.IH" [OF False inn refl refl refl refl ne refl] obtain chs' sl' where
          "layout_children chs start span_rad (sum_list (map node_value chs))
                (inner + ring_thick) depth ring_thick gap_rad max_depth
                (slices @ [(inner, inner + ring_thick, start + gap_rad / 2,
                            start + span_rad - gap_rad / 2, lbl, depth, v)]) = Inr (chs', sl')"
          by blast
        with False inn ne show ?thesis by (simp add: Let_def)
      qed
    qed
  qed
next
  case (2 a span_rad total_v outer depth ring_thick gap_rad max_depth slices)
  show ?case by simp
next
  case (3 ch rest a span_rad total_v outer depth ring_thick gap_rad max_depth slices)
  let ?frac = "if 0 < total_v then node_value ch / total_v else 0"
  from "3.IH"(1) [OF refl] obtain ch' s1 where
    A: "layout_node (set_inner ch outer) a (span_rad * ?frac) (depth + 1) ring_thick gap_rad
          max_depth slices = Inr (ch', s1)"
    by (auto simp: node_inner_set_inner)
  from "3.IH"(2) [OF refl A refl] obtain rest' s2 where
    B: "layout_children rest (a + span_rad * ?frac) span_rad total_v outer depth ring_thick
          gap_rad max_depth s1 = Inr (rest', s2)"
    by blast
  from A B show ?case by (simp add: Let_def)
qed

lemma laid_out_set_inner:
  "laid_out (set_inner ch x) r depth ring_thick max_depth = laid_out ch r depth ring_thick max_depth"
  by (cases ch) simp

lemma zero_span_wedges_set_inner:
  "zero_span_wedges (set_inner ch x) r a depth ring_thick gap_rad max_depth =
     zero_span_wedges ch r a depth ring_thick gap_rad max_depth"
  by (cases ch) simp

lemma layout_result_tree:
  "(node_inner n = Some r \<longrightarrow>
      layout_node n start span_rad depth ring_thick gap_rad max_depth slices = Inr (n', sl) \<longrightarrow>
      n' = laid_out n r depth ring_thick max_depth)"
  "(layout_children chs a span_rad' total_v outer depth' ring_thick' gap_rad' max_depth' slices'
      = Inr (chs', sl') \<longrightarrow>
      chs' = map (\<lambda>ch. laid_out ch outer (depth' + 1) ring_thick' max_depth') chs)"
proof (induction n start span_rad depth ring_thick gap_rad max_depth slices
         and chs a span_rad' total_v outer depth' ring_thick' gap_rad' max_depth' slices'
       arbitrary: n' sl r and chs' sl'
       rule: layout_node_layout_children.induct)
  case (1 lbl v inn chs start span_rad depth ring_thick gap_rad max_depth slices)
  let ?cut = "case max_depth of None \<Rightarrow> False | Some md \<Rightarrow> md < depth"
  show ?case
  proof (intro impI)
    assume "node_inner (Node lbl v inn chs) = Some r"
    then have inn: "inn = Some r" by simp
    assume R: "layout_node (Node lbl v inn chs) start span_rad depth ring_thick gap_rad
                 max_depth slices = Inr (n', sl)"
    show "n' = laid_out (Node lbl v inn chs) r depth ring_thick max_depth"
    proof (cases ?cut)
      case True
      with R have "n' = Node lbl v inn chs" by auto
      with True inn show ?thesis by (simp add: cut_off_def)
    next
      case False
      show ?thesis
      proof (cases "chs = []")
        case True
        with R False inn have "n' = Node lbl v inn chs" by (auto simp: Let_def)
        with True False inn show ?thesis by (simp add: cut_off_def)
      next
        case ne: False
        note IH = "1.IH" [OF False inn refl refl refl refl ne refl]
        from R False inn ne obtain chs' where
          C: "layout_children chs start span_rad (sum_list (map node_value chs))
                (r + ring_thick) depth ring_thick gap_rad max_depth
                (slices @ [(r, r + ring_thick, start + gap_rad / 2,
                            start + span_rad - gap_rad / 2, lbl, depth, v)]) = Inr (chs', sl)"
          and n': "n' = Node lbl v inn chs'"
          by (auto simp: Let_def split: sum.splits)
        from IH C have "chs' = map (\<lambda>ch. laid_out ch (r + ring_thick) (depth + 1) ring_thick
                                       max_depth) chs" by blast
        with n' inn False show ?thesis by (simp add: cut_off_def)
      qed
    qed
  qed
next
  case (2 a span_rad total_v outer depth ring_thick gap_rad max_depth slices)
  show ?case by auto
next
  case (3 ch rest a span_rad total_v outer depth ring_thick gap_rad max_depth slices)
  let ?frac = "if 0 < total_v then node_value ch / total_v else 0"
  show ?case
  proof (intro impI)
    assume R: "layout_children (ch # rest) a span_rad total_v outer depth ring_thick gap_rad
                 max_depth slices = Inr (chs', sl')"
    then obtain ch' s1 rest' where
      A: "layout_node (set_inner ch outer) a (span_rad * ?frac) (depth + 1) ring_thick gap_rad
            max_depth slices = Inr (ch', s1)"
      and B: "layout_children rest (a + span_rad * ?frac) span_rad total_v outer depth ring_thick
            gap_rad max_depth s1 = Inr (rest', sl')"
      and c: "chs' = ch' # rest'"
      by (auto simp: Let_def split: sum.splits)
    from "3.IH"(1) [OF refl] A
    have "ch' = laid_out (set_inner ch outer) outer (depth + 1) ring_thick max_depth"
      using node_inner_set_inner by blast
    moreover from "3.IH"(2) [OF refl A refl] B
    have "rest' = map (\<lambda>ch. laid_out ch outer (depth + 1) ring_thick max_depth) rest" by blast
    ultimately show "chs' = map (\<lambda>ch. laid_out ch outer (depth + 1) ring_thick max_depth) (ch # rest)"
      using c by (simp add: laid_out_set_inner)
  qed
qed

lemma node_inner_laid_out: "node_inner (laid_out n r depth ring_thick max_depth) = Some r"
  by (cases n) simp

lemma laid_out_radii_written:
  "radii_written (laid_out n r depth ring_thick max_depth) depth ring_thick max_depth"
proof (induction n r depth ring_thick max_depth rule: laid_out.induct)
  case (1 lbl v inn chs r depth ring_thick max_depth)
  show ?case
  proof (cases "cut_off max_depth depth")
    case True
    then show ?thesis by simp
  next
    case False
    with "1.IH" show ?thesis
      by (simp add: list_all_iff node_inner_laid_out)
  qed
qed

lemma layout_zero_span_exact:
  "(span_rad = 0 \<longrightarrow> node_inner n = Some r \<longrightarrow>
      layout_node n start span_rad depth ring_thick gap_rad max_depth slices = Inr (n', sl) \<longrightarrow>
      sl = slices @ zero_span_wedges n r start depth ring_thick gap_rad max_depth)"
  "(span_rad' = 0 \<or> \<not> 0 < total_v \<longrightarrow>
      layout_children chs a span_rad' total_v outer depth' ring_thick' gap_rad' max_depth' slices'
        = Inr (chs', sl') \<longrightarrow>
      sl' = slices' @ concat (map (\<lambda>ch. zero_span_wedges ch outer a (depth' + 1) ring_thick'
                                          gap_rad' max_depth') chs))"
proof (induction n start span_rad depth ring_thick gap_rad max_depth slices
         and chs a span_rad' total_v outer depth' ring_thick' gap_rad' max_depth' slices'
       arbitrary: n' sl r and chs' sl'
       rule: layout_node_layout_children.induct)
  case (1 lbl v inn chs start span_rad depth ring_thick gap_rad max_depth slices)
  let ?cut = "case max_depth of None \<Rightarrow> False | Some md \<Rightarrow> md < depth"
  show ?case
  proof (intro impI)
    assume z: "span_rad = 0"
    assume "node_inner (Node lbl v inn chs) = Some r"
    then have inn: "inn = Some r" by simp
    assume R: "layout_node (Node lbl v inn chs) start span_rad depth ring_thick gap_rad
                 max_depth slices = Inr (n', sl)"
    let ?own = "(r, r + ring_thick, start + gap_rad / 2, start + span_rad - gap_rad / 2,
                 lbl, depth, v)"
    show "sl = slices @ zero_span_wedges (Node lbl v inn chs) r start depth ring_thick gap_rad
                          max_depth"
    proof (cases ?cut)
      case True
      with R have "sl = slices" by auto
      with True show ?thesis by (simp add: cut_off_def)
    next
      case False
      show ?thesis
      proof (cases "chs = []")
        case True
        with R False inn have "sl = slices @ [?own]" by (auto simp: Let_def)
        with True False z show ?thesis by (simp add: cut_off_def)
      next
        case ne: False
        note IH = "1.IH" [OF False inn refl refl refl refl ne refl]
        from R False inn ne obtain chs' where
          C: "layout_children chs start span_rad (sum_list (map node_value chs))
                (r + ring_thick) depth ring_thick gap_rad max_depth (slices @ [?own])
              = Inr (chs', sl)"
          by (auto simp: Let_def split: sum.splits)
        from IH z C have "sl = (slices @ [?own]) @
            concat (map (\<lambda>ch. zero_span_wedges ch (r + ring_thick) start (depth + 1) ring_thick
                                 gap_rad max_depth) chs)"
          by blast
        with False z show ?thesis by (simp add: cut_off_def)
      qed
    qed
  qed
next
  case (2 a span_rad total_v outer depth ring_thick gap_rad max_depth slices)
  show ?case by simp
next
  case (3 ch rest a span_rad total_v outer depth ring_thick gap_rad max_depth slices)
  let ?frac = "if 0 < total_v then node_value ch / total_v else 0"
  show ?case
  proof (intro impI)
    assume z: "span_rad = 0 \<or> \<not> 0 < total_v"
    then have z': "span_rad * ?frac = 0" by auto
    assume R: "layout_children (ch # rest) a span_rad total_v outer depth ring_thick gap_rad
                 max_depth slices = Inr (chs', sl')"
    then obtain ch' s1 rest' where
      A: "layout_node (set_inner ch outer) a (span_rad * ?frac) (depth + 1) ring_thick gap_rad
            max_depth slices = Inr (ch', s1)"
      and B: "layout_children rest (a + span_rad * ?frac) span_rad total_v outer depth ring_thick
            gap_rad max_depth s1 = Inr (rest', sl')"
      by (auto simp: Let_def split: sum.splits)
    from "3.IH"(1) [OF refl] z' A
    have s1: "s1 = slices @ zero_span_wedges (set_inner ch outer) outer a (depth + 1) ring_thick
                              gap_rad max_depth"
      using node_inner_set_inner by blast
    have a': "a + span_rad * ?frac = a" using z' by simp
    from "3.IH"(2) [OF refl A refl] z B
    have "sl' = s1 @ concat (map (\<lambda>ch. zero_span_wedges ch outer (a + span_rad * ?frac)
                                     (depth + 1) ring_thick gap_rad max_depth) rest)"
      by blast
    then have "sl' = s1 @ concat (map (\<lambda>ch. zero_span_wedges ch outer a
                                     (depth + 1) ring_thick gap_rad max_depth) rest)"
      unfolding a' .
    with s1 show "sl' = slices @ concat (map (\<lambda>ch. zero_span_wedges ch outer a (depth + 1)
                                     ring_thick gap_rad max_depth) (ch # rest))"
      by (simp add: zero_span_wedges_set_inner)
  qed
qed

lemma zero_span_wedges_props:
  "\<forall>s\<in>set (zero_span_wedges n r a depth ring_thick gap_rad max_depth).
     slice_span gap_rad s = 0 \<and> slice_theta1 s = a + gap_rad / 2 \<and> depth \<le> slice_depth s"
proof (induction n r a depth ring_thick gap_rad max_depth rule: zero_span_wedges.induct)
  case (1 lbl v inn chs r a depth ring_thick gap_rad max_depth)
  show ?case
  proof (cases "cut_off max_depth depth")
    case True
    then show ?thesis by simp
  next
    case False
    with "1.IH" show ?thesis by fastforce
  qed
qed

lemma zero_span_wedges_own:
  "\<not> cut_off max_depth depth \<Longrightarrow>
   filter (\<lambda>s. slice_depth s = depth)
     (zero_span_wedges n r a depth ring_thick gap_rad max_depth) =
   [(r, r + ring_thick, a + gap_rad / 2, a - gap_rad / 2, node_label n, depth, node_value n)]"
proof (cases n)
  case (Node lbl v inn chs)
  assume nc: "\<not> cut_off max_depth depth"
  have "\<forall>s\<in>set (concat (map (\<lambda>ch. zero_span_wedges ch (r + ring_thick) a (depth + 1) ring_thick
                                   gap_rad max_depth) chs)). slice_depth s \<noteq> depth"
    using zero_span_wedges_props by fastforce
  then have "filter (\<lambda>s. slice_depth s = depth)
      (concat (map (\<lambda>ch. zero_span_wedges ch (r + ring_thick) a (depth + 1) ring_thick
                             gap_rad max_depth) chs)) = []"
    by (simp add: filter_empty_conv)
  with Node nc show ?thesis by simp
qed

lemma children_wedges:
  "\<not> cut_off max_depth depth \<Longrightarrow>
   filter (\<lambda>s. slice_depth s = depth)
     (concat (map (\<lambda>ch. zero_span_wedges ch outer a depth ring_thick gap_rad max_depth) chs)) =
   map (child_wedge outer a depth ring_thick gap_rad) chs"
  by (induction chs) (simp_all add: zero_span_wedges_own child_wedge_def)

text \<open>
  C5, as the code has it. For a node that is laid out (its depth is within \<open>max_depth\<close>) and
  has at least one child, when the children's values sum to zero (or less), the call
  returns, and the wedges it appends are the node's own wedge followed by exactly the
  zero-span wedges of the children: every child, and every descendant of a child, within
  the depth limit gets one wedge, of angular span 0 before the gap is taken off, at the
  node's start angle. In particular the wedges one level below the node are, in order, one
  per child, each on the ring outside the node's and of span 0: the node's span is not
  split among the k children.
\<close>

theorem zero_total_children_zero_span:
  "chs \<noteq> [] \<and> sum_list (map node_value chs) \<le> 0 \<and> \<not> cut_off max_depth depth \<longrightarrow>
     (\<exists>n'. layout_node (Node lbl v (Some inner) chs) start span_rad depth ring_thick gap_rad
              max_depth slices =
            Inr (n', slices @
                     (inner, inner + ring_thick, start + gap_rad / 2,
                      start + span_rad - gap_rad / 2, lbl, depth, v)
                     # concat (map (\<lambda>ch. zero_span_wedges ch (inner + ring_thick) start
                                          (depth + 1) ring_thick gap_rad max_depth) chs)))
     \<and> (\<forall>s\<in>set (concat (map (\<lambda>ch. zero_span_wedges ch (inner + ring_thick) start
                                       (depth + 1) ring_thick gap_rad max_depth) chs)).
           slice_span gap_rad s = 0 \<and> slice_theta1 s = start + gap_rad / 2)
     \<and> (\<not> cut_off max_depth (depth + 1) \<longrightarrow>
           filter (\<lambda>s. slice_depth s = depth + 1)
             (concat (map (\<lambda>ch. zero_span_wedges ch (inner + ring_thick) start
                                   (depth + 1) ring_thick gap_rad max_depth) chs)) =
           map (child_wedge (inner + ring_thick) start (depth + 1) ring_thick gap_rad) chs)"
proof (intro impI conjI)
  let ?own = "(inner, inner + ring_thick, start + gap_rad / 2,
               start + span_rad - gap_rad / 2, lbl, depth, v)"
  let ?total = "sum_list (map node_value chs)"
  let ?rest = "concat (map (\<lambda>ch. zero_span_wedges ch (inner + ring_thick) start
                                    (depth + 1) ring_thick gap_rad max_depth) chs)"
  show "\<forall>s\<in>set ?rest. slice_span gap_rad s = 0 \<and> slice_theta1 s = start + gap_rad / 2"
    using zero_span_wedges_props by fastforce
  show "filter (\<lambda>s. slice_depth s = depth + 1) ?rest =
          map (child_wedge (inner + ring_thick) start (depth + 1) ring_thick gap_rad) chs"
    if "\<not> cut_off max_depth (depth + 1)"
    using that by (rule children_wedges)
  assume h: "chs \<noteq> [] \<and> sum_list (map node_value chs) \<le> 0 \<and> \<not> cut_off max_depth depth"
  obtain chs' sl where
    C: "layout_children chs start span_rad ?total (inner + ring_thick) depth ring_thick gap_rad
          max_depth (slices @ [?own]) = Inr (chs', sl)"
    using layout_total(2) by blast
  have "span_rad = 0 \<or> \<not> 0 < ?total" using h by simp
  with layout_zero_span_exact(2) C have "sl = (slices @ [?own]) @ ?rest"
    by blast
  with h C have "layout_node (Node lbl v (Some inner) chs) start span_rad depth ring_thick gap_rad
            max_depth slices = Inr (Node lbl v (Some inner) chs', slices @ ?own # ?rest)"
    by (simp add: Let_def cut_off_def)
  then show "\<exists>n'. layout_node (Node lbl v (Some inner) chs) start span_rad depth ring_thick
                     gap_rad max_depth slices = Inr (n', slices @ ?own # ?rest)"
    by blast
qed

text \<open>
  C5 at a root of span 4 and gap 1/10 with two children of value 0, one of which has a child
  of value 5: the three wedges below the root all run from 1/20 to -1/20.
\<close>

theorem zero_total_children_zero_span_witness:
  "(\<exists>n'. layout_node (Node ''r'' 1 (Some 0) [Node ''a'' 0 None [Node ''c'' 5 None []],
                                                Node ''b'' 0 None []])
            0 4 0 1 (1 / 10) None [] =
          Inr (n', [(0, 1, 1 / 20, 79 / 20, ''r'', 0, 1),
                    (1, 2, 1 / 20, - (1 / 20), ''a'', 1, 0),
                    (2, 3, 1 / 20, - (1 / 20), ''c'', 2, 5),
                    (1, 2, 1 / 20, - (1 / 20), ''b'', 1, 0)]))
   \<and> list_all (\<lambda>s. slice_span (1 / 10) s = 0 \<and> slice_theta1 s = 1 / 20)
        [(1, 2, 1 / 20, - (1 / 20), ''a'', 1, 0), (2, 3, 1 / 20, - (1 / 20), ''c'', 2, 5),
         (1, 2, 1 / 20, - (1 / 20), ''b'', 1, 0)]"
  using zero_total_children_zero_span
    [where chs = "[Node ''a'' 0 None [Node ''c'' 5 None []], Node ''b'' 0 None []]"
       and max_depth = None and depth = 0 and lbl = "''r''" and v = 1 and inner = 0
       and start = 0 and span_rad = 4 and ring_thick = 1 and gap_rad = "1 / 10"
       and slices = "[]"]
  by (simp add: cut_off_def child_wedge_def)

text \<open>
  C5 as stated fails: a node of span 4 whose two children have value 0 gives each child the
  span 0 (both wedges run from angle 0 to angle 0), not 4 / 2.
\<close>

theorem zero_total_children_not_even_split:
  "layout_node (Node ''r'' 1 (Some 0) [Node ''a'' 0 None [], Node ''b'' 0 None []])
       0 4 0 1 0 None [] =
     Inr (Node ''r'' 1 (Some 0) [Node ''a'' 0 (Some 1) [], Node ''b'' 0 (Some 1) []],
          [(0, 1, 0, 4, ''r'', 0, 1), (1, 2, 0, 0, ''a'', 1, 0), (1, 2, 0, 0, ''b'', 1, 0)])
   \<and> map (slice_span 0) [(1, 2, 0, 0, ''a'', 1, 0), (1, 2, 0, 0, ''b'', 1, 0)] = [0, 0]
   \<and> [0, 0] \<noteq> [4 / 2, 4 / (2::real)]"
  by (simp add: Let_def)

text \<open>
  C8, as the code has it. The radial partition of \<open>build\<close> always returns, and it leaves the
  input hierarchy changed in the key \<open>inner\<close> and in nothing else. The hierarchy after the
  call is exactly the input with the inner radii written: the root holds \<open>inner_frac\<close>, and
  at every depth each child of a node that was laid out holds that node's inner radius plus
  the ring thickness, its outer radius; below a node cut off by \<open>max_depth\<close> nothing is
  written. Apart from \<open>inner\<close>, every node holds the label, the value and the children it
  held before the call.
\<close>

theorem sunburst_layout_writes_inner:
  "(\<exists>slices.
      sunburst_layout root_node inner_frac start_angle ring_thickness gap_deg max_depth
        = Inr (laid_out root_node inner_frac 0 ring_thickness max_depth, slices))
   \<and> erase_inner (laid_out root_node inner_frac 0 ring_thickness max_depth) = erase_inner root_node
   \<and> node_inner (laid_out root_node inner_frac 0 ring_thickness max_depth) = Some inner_frac
   \<and> radii_written (laid_out root_node inner_frac 0 ring_thickness max_depth) 0 ring_thickness
        max_depth"
proof -
  let ?r = "set_inner root_node inner_frac"
  have i: "node_inner ?r = Some inner_frac" by (rule node_inner_set_inner)
  then have "node_inner ?r \<noteq> None" by simp
  with layout_total(1) obtain root' slices where
    L: "layout_node ?r (deg2rad start_angle) (2 * pi) 0 ring_thickness (deg2rad gap_deg)
          max_depth [] = Inr (root', slices)"
    by blast
  from layout_result_tree(1) i L
  have "root' = laid_out ?r inner_frac 0 ring_thickness max_depth" by blast
  then have R: "root' = laid_out root_node inner_frac 0 ring_thickness max_depth"
    by (simp add: laid_out_set_inner)
  from layout_frame(1) L have "erase_inner root' = erase_inner ?r" by blast
  then have E: "erase_inner root' = erase_inner root_node" by (simp add: erase_inner_set_inner)
  from L R E show ?thesis
    unfolding sunburst_layout_def
    by (auto simp: node_inner_laid_out laid_out_radii_written)
qed

text \<open>
  C8 at a root with a child and a grandchild, under the default options of \<open>build\<close>: the
  three nodes hold 0.38, 0.56 and 0.74 after the call.
\<close>

theorem sunburst_layout_writes_inner_witness:
  "\<exists>slices.
      sunburst_layout (Node ''r'' 10 None [Node ''a'' 10 None [Node ''c'' 4 None []]])
          (38 / 100) 90 (18 / 100) (3 / 2) None =
        Inr (Node ''r'' 10 (Some (38 / 100))
               [Node ''a'' 10 (Some (56 / 100)) [Node ''c'' 4 (Some (74 / 100)) []]], slices)"
  using sunburst_layout_writes_inner
    [where root_node = "Node ''r'' 10 None [Node ''a'' 10 None [Node ''c'' 4 None []]]"
       and inner_frac = "38 / 100" and start_angle = 90 and ring_thickness = "18 / 100"
       and gap_deg = "3 / 2" and max_depth = None]
  by (simp add: cut_off_def)

text \<open>
  C8 as stated fails: a root and its child that had no key \<open>inner\<close> before the call hold
  0.38 and 0.56 under that key after it.
\<close>

theorem sunburst_layout_mutates_input:
  "map_sum id fst (sunburst_layout (Node ''r'' 10 None [Node ''a'' 10 None []])
       (38 / 100) 90 (18 / 100) (3 / 2) None) =
     Inr (Node ''r'' 10 (Some (38 / 100)) [Node ''a'' 10 (Some (56 / 100)) []])
   \<and> Node ''r'' 10 (Some (38 / 100)) [Node ''a'' 10 (Some (56 / 100)) []]
       \<noteq> Node ''r'' 10 None [Node ''a'' 10 None []]"
  by (simp add: sunburst_layout_def Let_def)

end
